theory Spec2Isabelle
  imports Complex_Main "HOL-Library.Sublist"
begin

section \<open>The host document\<close>

text \<open>
  The colorizer works on a DOM tree through a handful of primitives
  (\<^verbatim>\<open>getAttribute\<close>, \<^verbatim>\<open>setAttribute\<close>, \<^verbatim>\<open>removeAttribute\<close>,
  \<^verbatim>\<open>querySelectorAll\<close>, \<^verbatim>\<open>querySelector\<close>, \<^verbatim>\<open>closest\<close>,
  \<^verbatim>\<open>insertBefore\<close>, \<^verbatim>\<open>appendChild\<close>, \<^verbatim>\<open>remove\<close>, \<^verbatim>\<open>cloneNode\<close>).
  The document is a tree of element nodes; an element carries its tag name, its
  attributes (a name-to-value dictionary, \<open>None\<close> being JavaScript's \<^verbatim>\<open>null\<close>)
  and its child elements in document order. Character data is left out: no
  selector of the library matches it and no operation reads it.

  An element reference is the position of the element in the document: the list
  of child indices on the way down from the document root. A position that
  leads nowhere stands for \<^verbatim>\<open>null\<close>.
\<close>

type_synonym attrs = "string \<rightharpoonup> string"

datatype node = Node (tagName: string) (attributes: attrs) (childNodes: "node list")

type_synonym ref = "nat list"

fun node_at :: "node \<Rightarrow> ref \<Rightarrow> node option" where
  "node_at n [] = Some n"
| "node_at n (i # r) =
     (if i < length (childNodes n) then node_at (childNodes n ! i) r else None)"

fun map_at :: "ref \<Rightarrow> (node \<Rightarrow> node) \<Rightarrow> node \<Rightarrow> node" where
  "map_at [] f n = f n"
| "map_at (i # r) f n =
     (if i < length (childNodes n)
      then Node (tagName n) (attributes n) ((childNodes n)[i := map_at r f (childNodes n ! i)])
      else n)"

definition getAttribute :: "node \<Rightarrow> ref \<Rightarrow> string \<Rightarrow> string option" where
  "getAttribute doc el name =
     (case node_at doc el of None \<Rightarrow> None | Some n \<Rightarrow> attributes n name)"

definition set_attr :: "string \<Rightarrow> string \<Rightarrow> node \<Rightarrow> node" where
  "set_attr name v n = Node (tagName n) ((attributes n)(name \<mapsto> v)) (childNodes n)"

definition del_attr :: "string \<Rightarrow> node \<Rightarrow> node" where
  "del_attr name n = Node (tagName n) ((attributes n)(name := None)) (childNodes n)"

definition setAttribute :: "node \<Rightarrow> ref \<Rightarrow> string \<Rightarrow> string \<Rightarrow> node" where
  "setAttribute doc el name v = map_at el (set_attr name v) doc"

definition removeAttribute :: "node \<Rightarrow> ref \<Rightarrow> string \<Rightarrow> node" where
  "removeAttribute doc el name = map_at el (del_attr name) doc"

text \<open>
  \<^verbatim>\<open>el.querySelectorAll('t1, t2, ...')\<close> for a list of type selectors: the proper
  descendants of \<open>el\<close> whose tag is in the list, in document order.
  \<open>matching\<close> lists them relative to \<open>el\<close>.
\<close>

fun matching :: "string list \<Rightarrow> node \<Rightarrow> ref list"
  and matching_from :: "string list \<Rightarrow> nat \<Rightarrow> node list \<Rightarrow> ref list" where
  "matching sel (Node t a cs) = matching_from sel 0 cs"
| "matching_from sel i [] = []"
| "matching_from sel i (c # cs) =
     (if tagName c \<in> set sel then [[i]] else []) @ map ((#) i) (matching sel c)
       @ matching_from sel (Suc i) cs"

definition querySelectorAll :: "node \<Rightarrow> ref \<Rightarrow> string list \<Rightarrow> ref list" where
  "querySelectorAll doc el sel =
     (case node_at doc el of None \<Rightarrow> [] | Some n \<Rightarrow> map ((@) el) (matching sel n))"

definition querySelector :: "node \<Rightarrow> ref \<Rightarrow> string list \<Rightarrow> ref option" where
  "querySelector doc el sel =
     (case querySelectorAll doc el sel of [] \<Rightarrow> None | r # _ \<Rightarrow> Some r)"

text \<open>
  \<^verbatim>\<open>el.closest('g[a]')\<close>: the element itself, then its parent, and so on up to the
  document root; the first one that is a \<^verbatim>\<open>g\<close> and declares attribute \<open>a\<close>.
\<close>

definition matches_g :: "node \<Rightarrow> string \<Rightarrow> ref \<Rightarrow> bool" where
  "matches_g doc a r =
     (case node_at doc r of None \<Rightarrow> False
      | Some n \<Rightarrow> tagName n = ''g'' \<and> attributes n a \<noteq> None)"

definition closest_g :: "node \<Rightarrow> ref \<Rightarrow> string \<Rightarrow> ref option" where
  "closest_g doc el a = find (matches_g doc a) (rev (prefixes el))"

text \<open>\<^verbatim>\<open>parent.insertBefore(n, parent.firstChild)\<close>, \<^verbatim>\<open>parent.appendChild(n)\<close>
  and \<^verbatim>\<open>el.remove()\<close>.\<close>

definition insert_first :: "node \<Rightarrow> node \<Rightarrow> node" where
  "insert_first c n = Node (tagName n) (attributes n) (c # childNodes n)"

definition append_child :: "node \<Rightarrow> node \<Rightarrow> node" where
  "append_child c n = Node (tagName n) (attributes n) (childNodes n @ [c])"

definition drop_child :: "nat \<Rightarrow> node \<Rightarrow> node" where
  "drop_child i n = Node (tagName n) (attributes n) (take i (childNodes n) @ drop (Suc i) (childNodes n))"

definition appendChild :: "node \<Rightarrow> ref \<Rightarrow> node \<Rightarrow> node" where
  "appendChild doc parent c = map_at parent (append_child c) doc"

definition remove :: "node \<Rightarrow> ref \<Rightarrow> node" where
  "remove doc el = (if el = [] then doc else map_at (butlast el) (drop_child (last el)) doc)"

text \<open>
  Inserting a first child moves the later children of \<open>parent\<close> one place to the
  right; \<open>after_insert parent\<close> gives the new position of an element that was
  referred to before the insertion.
\<close>

definition after_insert :: "ref \<Rightarrow> ref \<Rightarrow> ref" where
  "after_insert parent r =
     (if prefix parent r \<and> r \<noteq> parent
      then parent @ Suc (r ! length parent) # drop (Suc (length parent)) r
      else r)"

text \<open>JavaScript truthiness of a value that is a string or \<^verbatim>\<open>null\<close>, and the
  test \<^verbatim>\<open>v && v !== 'none' && v !== 'transparent'\<close> the library applies to
  paint values.\<close>

definition truthy :: "string option \<Rightarrow> bool" where
  "truthy v = (v \<noteq> None \<and> v \<noteq> Some [])"

definition isPaint :: "string option \<Rightarrow> bool" where
  "isPaint v = (truthy v \<and> v \<noteq> Some ''none'' \<and> v \<noteq> Some ''transparent'')"

section \<open>The colorizer\<close>

record config =
  colorPalette :: "string list"
  preserveLinearStyle :: bool
  independentColors :: bool
  gradientProbability :: real
  debug :: bool

text \<open>
  The instance: its configuration and the two optional callbacks.
  The element filter sees the document and the element; the color validator
  sees the sampled palette entry (\<open>None\<close> is \<^verbatim>\<open>undefined\<close>, what indexing an
  empty palette gives). Both are taken to be pure predicates.
\<close>

record colorizer =
  config :: config
  elementFilter :: "(node \<Rightarrow> ref \<Rightarrow> bool) option"
  colorValidator :: "(string option \<Rightarrow> bool) option"

subsection \<open>Color classification\<close>

definition shouldProcessElementColor :: "colorizer \<Rightarrow> node \<Rightarrow> ref \<Rightarrow> string \<Rightarrow> bool" where
  "shouldProcessElementColor c doc element attribute =
     (if (case elementFilter c of None \<Rightarrow> False | Some f \<Rightarrow> \<not> f doc element) then False
      else
        let ownValue = getAttribute doc element attribute in
        if truthy ownValue \<and> ownValue \<noteq> Some ''none'' \<and> ownValue \<noteq> Some ''transparent''
        then True
        else if \<not> truthy ownValue \<or> ownValue = Some ''none'' \<or> ownValue = Some ''transparent''
        then
          if (case closest_g doc element attribute of None \<Rightarrow> False
              | Some parentG \<Rightarrow>
                  let parentValue = getAttribute doc parentG attribute in
                  truthy parentValue \<and> parentValue \<noteq> Some ''none''
                    \<and> parentValue \<noteq> Some ''transparent'')
          then True
          else if attribute = ''fill''
          then
            let ownStroke = getAttribute doc element ''stroke'';
                parentGStroke = closest_g doc element ''stroke'';
                hasStroke =
                  ((truthy ownStroke \<and> ownStroke \<noteq> Some ''none''
                      \<and> ownStroke \<noteq> Some ''transparent'')
                   \<or> (case parentGStroke of None \<Rightarrow> False
                       | Some g \<Rightarrow>
                           truthy (getAttribute doc g ''stroke'')
                           \<and> getAttribute doc g ''stroke'' \<noteq> Some ''none''
                           \<and> getAttribute doc g ''stroke'' \<noteq> Some ''transparent''))
            in if hasStroke \<and> preserveLinearStyle (config c) then False else True
          else False
        else False)"

text \<open>
  An element has an own or inherited color on a channel when its own value is a
  paint, or the nearest \<^verbatim>\<open>g\<close> declaring the channel carries a paint: the
  expression \<^verbatim>\<open>hasStroke\<close> of the classifier, for either channel.
\<close>

definition hasOwnOrInherited :: "node \<Rightarrow> ref \<Rightarrow> string \<Rightarrow> bool" where
  "hasOwnOrInherited doc element attribute =
     (isPaint (getAttribute doc element attribute)
      \<or> (case closest_g doc element attribute of None \<Rightarrow> False
          | Some g \<Rightarrow> isPaint (getAttribute doc g attribute)))"

definition filterAccepts :: "colorizer \<Rightarrow> node \<Rightarrow> ref \<Rightarrow> bool" where
  "filterAccepts c doc element =
     (case elementFilter c of None \<Rightarrow> True | Some f \<Rightarrow> f doc element)"


subsection \<open>The host environment, events and the mutable state\<close>

text \<open>
  \<^verbatim>\<open>Math.random()\<close> and \<^verbatim>\<open>Date.now()\<close> are inputs: \<open>mathRandom h k\<close> is what the
  \<open>k\<close>-th call of \<^verbatim>\<open>Math.random()\<close> returns (an idealised real number),
  \<open>dateNow h k\<close> what the \<open>k\<close>-th call of \<^verbatim>\<open>Date.now()\<close> returns (milliseconds),
  and \<open>toString36 h\<close> is \<^verbatim>\<open>Number.prototype.toString(36)\<close>.
\<close>

record host =
  mathRandom :: "nat \<Rightarrow> real"
  dateNow :: "nat \<Rightarrow> nat"
  toString36 :: "real \<Rightarrow> string"

datatype error = InvalidSvg | ReferenceError string | TypeError

text \<open>The events handed to \<^verbatim>\<open>emit\<close>: \<^verbatim>\<open>colorApplied {element, attribute, color, index?}\<close>,
  \<^verbatim>\<open>error {error, element, index?}\<close>, \<^verbatim>\<open>complete {processedCount, totalCount, svgElement}\<close>
  and \<^verbatim>\<open>reset {svgElement, svgId}\<close>. A color is \<open>None\<close> when it is \<^verbatim>\<open>undefined\<close>.\<close>

datatype event =
    ColorApplied ref string "string option" "int option"
  | ErrorEvent error ref "nat option"
  | Complete nat nat ref
  | ResetEvent ref string

record original_element =
  orig_index :: nat
  orig_tagName :: string
  orig_fill :: "string option"
  orig_stroke :: "string option"
  orig_style :: "string option"

record original_state =
  st_elements :: "original_element list"
  st_defs :: "node option"

text \<open>
  What the operations read and write: the document, the instance's
  \<^verbatim>\<open>svgStates\<close> map, the events emitted so far (listeners are observers and
  logging is not modelled), and how many times the two clocks of the host were
  read.
\<close>

record state =
  document :: node
  svgStates :: "string \<rightharpoonup> original_state"
  emitted :: "event list"
  randomCalls :: nat
  nowCalls :: nat

definition emit :: "event \<Rightarrow> state \<Rightarrow> state" where
  "emit ev s = s\<lparr>emitted := emitted s @ [ev]\<rparr>"

definition Math_random :: "host \<Rightarrow> state \<Rightarrow> real \<times> state" where
  "Math_random h s = (mathRandom h (randomCalls s), s\<lparr>randomCalls := Suc (randomCalls s)\<rparr>)"

definition Date_now :: "host \<Rightarrow> state \<Rightarrow> nat \<times> state" where
  "Date_now h s = (dateNow h (nowCalls s), s\<lparr>nowCalls := Suc (nowCalls s)\<rparr>)"

text \<open>Decimal rendering of a number inside a template string.\<close>

definition digit :: "nat \<Rightarrow> char" where
  "digit n = ''0123456789'' ! n"

function decimal :: "nat \<Rightarrow> string" where
  "decimal n = (if n < 10 then [digit n] else decimal (n div 10) @ [digit (n mod 10)])"
  by pat_completeness auto
termination
  by (relation "measure id") auto

declare decimal.simps [simp del]

text \<open>\<^verbatim>\<open>String(v)\<close> for a value that is a string or \<^verbatim>\<open>undefined\<close>, as
  \<^verbatim>\<open>setAttribute\<close> and template strings apply it.\<close>

definition jsString :: "string option \<Rightarrow> string" where
  "jsString v = (case v of None \<Rightarrow> ''undefined'' | Some s \<Rightarrow> s)"

definition toLowerCase :: "string \<Rightarrow> string" where
  "toLowerCase str =
     map (\<lambda>ch. case map_of (zip ''ABCDEFGHIJKLMNOPQRSTUVWXYZ'' ''abcdefghijklmnopqrstuvwxyz'') ch of
                 None \<Rightarrow> ch | Some l \<Rightarrow> l) str"

definition elementId :: "node \<Rightarrow> ref \<Rightarrow> string" where
  "elementId doc el = (case getAttribute doc el ''id'' of None \<Rightarrow> [] | Some v \<Rightarrow> v)"

definition elementTag :: "node \<Rightarrow> ref \<Rightarrow> string" where
  "elementTag doc el = (case node_at doc el of None \<Rightarrow> [] | Some n \<Rightarrow> tagName n)"

definition paintable :: "string list" where
  "paintable = [''path'', ''rect'', ''circle'', ''polygon'', ''polyline'', ''line'', ''ellipse'']"

definition snapshotted :: "string list" where
  "snapshotted = [''path'', ''rect'', ''circle'', ''polygon'', ''polyline'', ''line'', ''ellipse'', ''g'']"

subsection \<open>Color and gradient generation\<close>

text \<open>
  The palette index is the floor of the exact product
  \<^verbatim>\<open>Math.random() * colors.length\<close>. The code floors the product rounded to a
  double, which for a random number next to a multiple of \<^verbatim>\<open>1 / colors.length\<close>
  can be the next index; which entry is drawn plays no part in any statement
  below, only that the result is an entry of the palette, \<^verbatim>\<open>undefined\<close> for an
  empty palette, or the fallback \<^verbatim>\<open>#409eff\<close>.
\<close>

definition generateRandomColor :: "host \<Rightarrow> colorizer \<Rightarrow> state \<Rightarrow> string option \<times> state" where
  "generateRandomColor h c s =
     (let colors = colorPalette (config c);
          (r, s1) = Math_random h s;
          i = \<lfloor>r * real (length colors)\<rfloor>;
          randomColor = (if 0 \<le> i \<and> nat i < length colors then Some (colors ! nat i) else None)
      in if (case colorValidator c of None \<Rightarrow> False | Some v \<Rightarrow> \<not> v randomColor)
         then (Some ''#409eff'', s1)
         else (randomColor, s1))"

definition generateRandomGradient ::
  "host \<Rightarrow> colorizer \<Rightarrow> string \<Rightarrow> state \<Rightarrow> (node \<times> string) \<times> state" where
  "generateRandomGradient h c ident s =
     (let (color1, s1) = generateRandomColor h c s;
          (color2, s2) = generateRandomColor h c s1;
          (t, s3) = Date_now h s2;
          gradientId = ''gradient-'' @ ident @ ''-'' @ decimal t;
          stop1 = Node ''stop'' [''offset'' \<mapsto> ''0%'', ''stop-color'' \<mapsto> jsString color1] [];
          stop2 = Node ''stop'' [''offset'' \<mapsto> ''100%'', ''stop-color'' \<mapsto> jsString color2] [];
          gradient = Node ''linearGradient''
            [''id'' \<mapsto> gradientId, ''x1'' \<mapsto> ''0%'', ''y1'' \<mapsto> ''0%'',
             ''x2'' \<mapsto> ''100%'', ''y2'' \<mapsto> ''100%'']
            [stop1, stop2]
      in ((gradient, ''url(#'' @ gradientId @ '')''), s3))"

subsection \<open>Snapshot, apply and reset\<close>

text \<open>
  \<^verbatim>\<open>saveOriginalState\<close> keeps an existing snapshot. \<^verbatim>\<open>cloneNode(true)\<close> of the
  \<^verbatim>\<open>defs\<close> element is the value of its subtree.
\<close>

definition saveOriginalState :: "ref \<Rightarrow> string \<Rightarrow> state \<Rightarrow> state" where
  "saveOriginalState svgElement svgId s =
     (if svgStates s svgId \<noteq> None then s
      else
        let doc = document s;
            elements = querySelectorAll doc svgElement snapshotted;
            originalState =
              \<lparr> st_elements =
                  map (\<lambda>(index, element).
                         \<lparr> orig_index = index,
                           orig_tagName = elementTag doc element,
                           orig_fill = getAttribute doc element ''fill'',
                           orig_stroke = getAttribute doc element ''stroke'',
                           orig_style = getAttribute doc element ''style'' \<rparr>)
                      (enumerate 0 elements),
                st_defs =
                  (case querySelector doc svgElement [''defs''] of
                     None \<Rightarrow> None | Some d \<Rightarrow> node_at doc d) \<rparr>
        in s\<lparr>svgStates := (svgStates s)(svgId \<mapsto> originalState)\<rparr>)"

definition applyColorToElement :: "node \<Rightarrow> ref \<Rightarrow> string \<Rightarrow> string option \<Rightarrow> node" where
  "applyColorToElement doc element attribute color =
     (let originalValue = getAttribute doc element attribute in
      if \<not> truthy originalValue \<or> originalValue = Some ''none''
           \<or> originalValue = Some ''transparent''
      then (case closest_g doc element attribute of
              Some parentG \<Rightarrow> setAttribute doc parentG attribute (jsString color)
            | None \<Rightarrow> setAttribute doc element attribute (jsString color))
      else setAttribute doc element attribute (jsString color))"

definition createDefsElement :: "node \<Rightarrow> ref \<Rightarrow> node \<times> ref" where
  "createDefsElement doc svgElement =
     (map_at svgElement (insert_first (Node ''defs'' Map.empty [])) doc, svgElement @ [0])"

text \<open>
  One round of the \<^verbatim>\<open>forEach\<close> of \<^verbatim>\<open>applyRandomColors\<close>, with its own
  \<^verbatim>\<open>try\<close>/\<^verbatim>\<open>catch\<close>. \<^verbatim>\<open>fillColor\<close> is declared by \<^verbatim>\<open>let\<close> inside the block of
  \<^verbatim>\<open>if (shouldProcessFill)\<close>; where the stroke block reads it, the name is not in
  scope, and (no global of that name existing) reading it throws a
  \<^verbatim>\<open>ReferenceError\<close>, which the \<^verbatim>\<open>catch\<close> turns into an error event.
\<close>

definition applyElement ::
  "host \<Rightarrow> colorizer \<Rightarrow> string \<Rightarrow> ref \<Rightarrow> state \<times> nat \<Rightarrow> nat \<times> ref \<Rightarrow> state \<times> nat" where
  "applyElement h c svgId defsElement acc item =
     (let (s, processedCount) = acc;
          (index, element) = item;
          shouldProcessFill = shouldProcessElementColor c (document s) element ''fill'';
          shouldProcessStroke = shouldProcessElementColor c (document s) element ''stroke'';
          s1 =
            (if shouldProcessFill
             then
               let (r, sa) = Math_random h s;
                   useGradient = (r < gradientProbability (config c));
                   (fillColor, sb) =
                     (if useGradient
                      then
                        let (gradientData, sg) =
                              generateRandomGradient h c (svgId @ ''-fill-'' @ decimal index) sa
                        in (Some (snd gradientData),
                            sg\<lparr>document := appendChild (document sg) defsElement (fst gradientData)\<rparr>)
                      else generateRandomColor h c sa)
               in emit (ColorApplied element ''fill'' fillColor None)
                    (sb\<lparr>document := applyColorToElement (document sb) element ''fill'' fillColor\<rparr>)
             else s)
      in if shouldProcessStroke
         then
           if independentColors (config c)
           then
             let (strokeColor, sc) = generateRandomColor h c s1
             in (emit (ColorApplied element ''stroke'' strokeColor None)
                   (sc\<lparr>document := applyColorToElement (document sc) element ''stroke'' strokeColor\<rparr>),
                 Suc processedCount)
           else (emit (ErrorEvent (ReferenceError ''fillColor'') element (Some index)) s1,
                 processedCount)
         else (s1, Suc processedCount))"

definition applyRandomColors :: "host \<Rightarrow> colorizer \<Rightarrow> ref \<Rightarrow> state \<Rightarrow> bool \<times> state" where
  "applyRandomColors h c svgElement s =
     (case node_at (document s) svgElement of
        None \<Rightarrow> (False, emit (ErrorEvent InvalidSvg svgElement None) s)
      | Some n \<Rightarrow>
          if toLowerCase (tagName n) \<noteq> ''svg''
          then (False, emit (ErrorEvent InvalidSvg svgElement None) s)
          else
            let (svgId, s1) =
                  (if elementId (document s) svgElement \<noteq> []
                   then (elementId (document s) svgElement, s)
                   else
                     let (t, sa) = Date_now h s;
                         (r, sb) = Math_random h sa
                     in (''svg-'' @ decimal t @ ''-'' @ take 9 (drop 2 (toString36 h r)), sb));
                s2 = saveOriginalState svgElement svgId s1;
                elements = querySelectorAll (document s2) svgElement paintable
            in if elements = [] then (False, s2)
               else
                 let (defsElement, elements1, s3) =
                       (case querySelector (document s2) svgElement [''defs''] of
                          Some d \<Rightarrow> (d, elements, s2)
                        | None \<Rightarrow>
                            let (doc1, d) = createDefsElement (document s2) svgElement
                            in (d, map (after_insert svgElement) elements, s2\<lparr>document := doc1\<rparr>));
                     (s4, processedCount) =
                       foldl (applyElement h c svgId defsElement) (s3, 0) (enumerate 0 elements1)
                 in (True, emit (Complete processedCount (length elements1) svgElement) s4))"

text \<open>
  \<^verbatim>\<open>applyRandomPathColors(svgElement, {pathIndices, independentColors = true})\<close>.
  Here \<^verbatim>\<open>fillColor\<close> is a \<^verbatim>\<open>const\<close> of the fill block, the \<^verbatim>\<open>forEach\<close> has no
  \<^verbatim>\<open>try\<close> of its own, and the \<^verbatim>\<open>ReferenceError\<close> leaves the loop for the
  \<^verbatim>\<open>catch\<close> of the whole method.
\<close>

record path_options =
  pathIndices :: "int list option"
  optIndependentColors :: "bool option"

definition applyPathElement ::
  "host \<Rightarrow> colorizer \<Rightarrow> bool \<Rightarrow> ref \<Rightarrow> int \<Rightarrow> state \<Rightarrow> (error \<times> state) + state" where
  "applyPathElement h c indep element index s =
     (let shouldProcessFill = shouldProcessElementColor c (document s) element ''fill'';
          shouldProcessStroke = shouldProcessElementColor c (document s) element ''stroke'';
          s1 =
            (if shouldProcessFill
             then
               let (fillColor, sa) = generateRandomColor h c s
               in emit (ColorApplied element ''fill'' fillColor (Some index))
                    (sa\<lparr>document := applyColorToElement (document sa) element ''fill'' fillColor\<rparr>)
             else s)
      in if shouldProcessStroke
         then
           if indep
           then
             let (strokeColor, sc) = generateRandomColor h c s1
             in Inr (emit (ColorApplied element ''stroke'' strokeColor (Some index))
                  (sc\<lparr>document := applyColorToElement (document sc) element ''stroke'' strokeColor\<rparr>))
           else Inl (ReferenceError ''fillColor'', s1)
         else Inr s1)"

fun pathLoop ::
  "host \<Rightarrow> colorizer \<Rightarrow> bool \<Rightarrow> ref list \<Rightarrow> int list \<Rightarrow> state \<Rightarrow> nat \<Rightarrow> error option \<times> state \<times> nat" where
  "pathLoop h c indep elements [] s processedCount = (None, s, processedCount)"
| "pathLoop h c indep elements (index # rest) s processedCount =
     (if 0 \<le> index \<and> index < int (length elements)
      then
        (case applyPathElement h c indep (elements ! nat index) index s of
           Inl (e, s1) \<Rightarrow> (Some e, s1, processedCount)
         | Inr s1 \<Rightarrow> pathLoop h c indep elements rest s1 (Suc processedCount))
      else pathLoop h c indep elements rest s processedCount)"

definition applyRandomPathColors ::
  "host \<Rightarrow> colorizer \<Rightarrow> ref \<Rightarrow> path_options \<Rightarrow> state \<Rightarrow> bool \<times> state" where
  "applyRandomPathColors h c svgElement options s =
     (case node_at (document s) svgElement of
        None \<Rightarrow> (False, emit (ErrorEvent TypeError svgElement None) s)
      | Some n \<Rightarrow>
          let indep = (case optIndependentColors options of None \<Rightarrow> True | Some b \<Rightarrow> b);
              elements = querySelectorAll (document s) svgElement paintable
          in if elements = [] then (False, s)
             else
               let targetIndices =
                     (case pathIndices options of
                        Some l \<Rightarrow> l | None \<Rightarrow> map int [0..<length elements])
               in (case pathLoop h c indep elements targetIndices s 0 of
                     (Some e, s1, processedCount) \<Rightarrow>
                       (False, emit (ErrorEvent e svgElement None) s1)
                   | (None, s1, processedCount) \<Rightarrow>
                       (True, emit (Complete processedCount (length targetIndices) svgElement) s1)))"

text \<open>
  \<^verbatim>\<open>resetColors\<close>. \<open>restoreElement\<close> is one round of its \<^verbatim>\<open>forEach\<close> over the
  records of the snapshot; \<open>elements\<close> is the node list queried before the loop,
  and an index beyond its end gives \<^verbatim>\<open>undefined\<close>, which the test
  \<^verbatim>\<open>element && ...\<close> skips.
\<close>

definition restoreElement :: "ref list \<Rightarrow> node \<Rightarrow> original_element \<Rightarrow> node" where
  "restoreElement elements doc originalElement =
     (if orig_index originalElement < length elements
      then
        let element = elements ! orig_index originalElement in
        if elementTag doc element = orig_tagName originalElement
        then
          let d1 = (case orig_fill originalElement of
                      Some v \<Rightarrow> setAttribute doc element ''fill'' v
                    | None \<Rightarrow> removeAttribute doc element ''fill'');
              d2 = (case orig_stroke originalElement of
                      Some v \<Rightarrow> setAttribute d1 element ''stroke'' v
                    | None \<Rightarrow> removeAttribute d1 element ''stroke'')
          in (case orig_style originalElement of
                Some v \<Rightarrow> setAttribute d2 element ''style'' v
              | None \<Rightarrow> removeAttribute d2 element ''style'')
        else doc
      else doc)"

definition resetColors :: "ref \<Rightarrow> state \<Rightarrow> bool \<times> state" where
  "resetColors svgElement s =
     (case node_at (document s) svgElement of
        None \<Rightarrow> (False, emit (ErrorEvent TypeError svgElement None) s)
      | Some n \<Rightarrow>
          let svgId = elementId (document s) svgElement in
          (case (if svgId = [] then None else svgStates s svgId) of
             None \<Rightarrow> (False, s)
           | Some originalState \<Rightarrow>
               let elements = querySelectorAll (document s) svgElement snapshotted;
                   d1 = foldl (restoreElement elements) (document s) (st_elements originalState);
                   d2 = (case querySelector d1 svgElement [''defs''] of
                           Some currentDefs \<Rightarrow> remove d1 currentDefs
                         | None \<Rightarrow> d1);
                   d3 = (case st_defs originalState of
                           Some d \<Rightarrow> map_at svgElement (insert_first d) d2
                         | None \<Rightarrow> d2)
               in (True, emit (ResetEvent svgElement svgId) (s\<lparr>document := d3\<rparr>))))"


section \<open>Concrete documents and instances\<close>

text \<open>A host whose clock stands still and whose random source always returns one half;
  \<^verbatim>\<open>(0.5).toString(36)\<close> is \<^verbatim>\<open>'0.i'\<close>.\<close>

definition host0 :: host where
  "host0 = \<lparr>mathRandom = (\<lambda>_. 1/2), dateNow = (\<lambda>_. 0), toString36 = (\<lambda>_. ''0.i'')\<rparr>"

text \<open>A host whose clock advances by one millisecond at every reading.\<close>

definition hostTick :: host where
  "hostTick = \<lparr>mathRandom = (\<lambda>_. 1/2), dateNow = (\<lambda>k. 1700000000000 + k),
               toString36 = (\<lambda>_. ''0.i'')\<rparr>"

definition cfg0 :: config where
  "cfg0 = \<lparr>colorPalette = [''#ff6b6b''], preserveLinearStyle = True, independentColors = True,
           gradientProbability = 3/10, debug = False\<rparr>"

definition col0 :: colorizer where
  "col0 = \<lparr>config = cfg0, elementFilter = None, colorValidator = None\<rparr>"

text \<open>The same instance with \<^verbatim>\<open>preserveLinearStyle: false\<close>, with
  \<^verbatim>\<open>independentColors: false\<close>, and with an element filter that rejects everything.\<close>

definition colFill :: colorizer where
  "colFill = col0\<lparr>config := cfg0\<lparr>preserveLinearStyle := False\<rparr>\<rparr>"

definition colShared :: colorizer where
  "colShared = col0\<lparr>config := cfg0\<lparr>independentColors := False\<rparr>\<rparr>"

definition colReject :: colorizer where
  "colReject = colFill\<lparr>elementFilter := Some (\<lambda>doc el. False)\<rparr>"

definition st0 :: "node \<Rightarrow> state" where
  "st0 d = \<lparr>document = d, svgStates = Map.empty, emitted = [], randomCalls = 0, nowCalls = 0\<rparr>"

text \<open>\<^verbatim>\<open><svg id="a"><path fill="#111"/></svg>\<close>\<close>

definition docFilled :: node where
  "docFilled = Node ''svg'' [''id'' \<mapsto> ''a''] [Node ''path'' [''fill'' \<mapsto> ''#111''] []]"

text \<open>\<^verbatim>\<open><svg><path fill="#111"/></svg>\<close>\<close>

definition docNoId :: node where
  "docNoId = Node ''svg'' Map.empty [Node ''path'' [''fill'' \<mapsto> ''#111''] []]"

text \<open>\<^verbatim>\<open><svg id="a"><path stroke="#000"/></svg>\<close>\<close>

definition docLine :: node where
  "docLine = Node ''svg'' [''id'' \<mapsto> ''a''] [Node ''path'' [''stroke'' \<mapsto> ''#000''] []]"

text \<open>\<^verbatim>\<open><svg id="a"><path/></svg>\<close>\<close>

definition docBare :: node where
  "docBare = Node ''svg'' [''id'' \<mapsto> ''a''] [Node ''path'' Map.empty []]"

text \<open>\<^verbatim>\<open><svg id="a"><path fill="#111" stroke="#222"/></svg>\<close>\<close>

definition docBoth :: node where
  "docBoth = Node ''svg'' [''id'' \<mapsto> ''a'']
               [Node ''path'' [''fill'' \<mapsto> ''#111'', ''stroke'' \<mapsto> ''#222''] []]"

text \<open>\<^verbatim>\<open><svg id="a"><g fill="#333"><path/><rect/></g><circle fill="#444"/></svg>\<close>\<close>

definition docGroup :: node where
  "docGroup = Node ''svg'' [''id'' \<mapsto> ''a'']
                [Node ''g'' [''fill'' \<mapsto> ''#333'']
                   [Node ''path'' Map.empty [], Node ''rect'' Map.empty []],
                 Node ''circle'' [''fill'' \<mapsto> ''#444''] []]"

text \<open>\<^verbatim>\<open><svg id="a"><g fill="none"><path/><circle stroke="#000"/></g></svg>\<close>\<close>

definition docGroupNone :: node where
  "docGroupNone = Node ''svg'' [''id'' \<mapsto> ''a'']
                    [Node ''g'' [''fill'' \<mapsto> ''none'']
                       [Node ''path'' Map.empty [],
                        Node ''circle'' [''stroke'' \<mapsto> ''#000''] []]]"

text \<open>Options of \<^verbatim>\<open>applyRandomPathColors\<close>: none given, and
  \<^verbatim>\<open>{pathIndices: [0, 7], independentColors: false}\<close>.\<close>

definition pathDefaults :: path_options where
  "pathDefaults = \<lparr>pathIndices = None, optIndependentColors = None\<rparr>"

definition pathShared :: path_options where
  "pathShared = \<lparr>pathIndices = Some [0, 7], optIndependentColors = Some False\<rparr>"

text \<open>\<^verbatim>\<open><svg id="a"><path fill="#111"/><defs><linearGradient id="g1"/></defs></svg>\<close>,
  the same with the \<^verbatim>\<open>defs\<close> in front, and a host whose first random number
  is 0, so that the first fill is a gradient.\<close>

definition docDefsLast :: node where
  "docDefsLast = Node ''svg'' [''id'' \<mapsto> ''a'']
                   [Node ''path'' [''fill'' \<mapsto> ''#111''] [],
                    Node ''defs'' Map.empty [Node ''linearGradient'' [''id'' \<mapsto> ''g1''] []]]"

definition docDefsFront :: node where
  "docDefsFront = Node ''svg'' [''id'' \<mapsto> ''a'']
                    [Node ''defs'' Map.empty [Node ''linearGradient'' [''id'' \<mapsto> ''g1''] []],
                     Node ''path'' [''fill'' \<mapsto> ''#111''] []]"

definition hostGradient :: host where
  "hostGradient = \<lparr>mathRandom = (\<lambda>k. if k = 0 then 0 else 1/2), dateNow = (\<lambda>_. 0),
                   toString36 = (\<lambda>r. if r = 0 then ''0'' else ''0.i'')\<rparr>"

text \<open>The state after a first \<^verbatim>\<open>applyRandomColors\<close> on
  \<^verbatim>\<open><svg id="a"><path fill="#111"/></svg>\<close>.\<close>

definition stColored :: state where
  "stColored = snd (applyRandomColors host0 col0 [] (st0 docFilled))"

section \<open>Vocabulary of the proofs\<close>

text \<open>A change of an element's attributes that leaves its tag and children alone;
  \<^verbatim>\<open>setAttribute\<close> and \<^verbatim>\<open>removeAttribute\<close> are such changes.\<close>

definition on_attrs :: "(attrs \<Rightarrow> attrs) \<Rightarrow> node \<Rightarrow> node" where
  "on_attrs \<phi> n = Node (tagName n) (\<phi> (attributes n)) (childNodes n)"

text \<open>The position, relative to a parent, of a descendant after a new first child
  was inserted into the parent.\<close>

definition shift :: "ref \<Rightarrow> ref" where
  "shift r = (case r of [] \<Rightarrow> [] | i # q \<Rightarrow> Suc i # q)"

text \<open>What \<^verbatim>\<open>resetColors\<close> does to the attributes of an element it restores.\<close>

definition restore_attrs :: "original_element \<Rightarrow> attrs \<Rightarrow> attrs" where
  "restore_attrs rec a =
     a(''fill'' := orig_fill rec, ''stroke'' := orig_stroke rec, ''style'' := orig_style rec)"

text \<open>The snapshot \<^verbatim>\<open>saveOriginalState\<close> records of a target whose subtree is \<open>n\<close>,
  and what \<^verbatim>\<open>resetColors\<close> makes of a target's subtree \<open>n\<close> from a snapshot
  (positions relative to the target).\<close>

definition snapshotOf :: "node \<Rightarrow> original_state" where
  "snapshotOf n =
     \<lparr> st_elements =
         map (\<lambda>(index, element).
                \<lparr> orig_index = index,
                  orig_tagName = elementTag n element,
                  orig_fill = getAttribute n element ''fill'',
                  orig_stroke = getAttribute n element ''stroke'',
                  orig_style = getAttribute n element ''style'' \<rparr>)
             (enumerate 0 (matching snapshotted n)),
       st_defs = (case matching [''defs''] n of [] \<Rightarrow> None | d # _ \<Rightarrow> node_at n d) \<rparr>"

definition resetTree :: "original_state \<Rightarrow> node \<Rightarrow> node" where
  "resetTree st n =
     (let d1 = foldl (restoreElement (matching snapshotted n)) n (st_elements st);
          d2 = (case matching [''defs''] d1 of [] \<Rightarrow> d1 | currentDefs # _ \<Rightarrow> remove d1 currentDefs)
      in case st_defs st of Some d \<Rightarrow> insert_first d d2 | None \<Rightarrow> d2)"

text \<open>
  The tree \<open>n\<close> with its first \<^verbatim>\<open>defs\<close> element (in document order), if it has
  one, taken out of its place and put in front of the children of the root.
  Nothing else differs from \<open>n\<close>: every element keeps its tag, its attributes
  and its children.
\<close>

definition defs_first :: "node \<Rightarrow> node" where
  "defs_first n =
     (case matching [''defs''] n of
        [] \<Rightarrow> n
      | d # _ \<Rightarrow> (case node_at n d of None \<Rightarrow> n | Some dn \<Rightarrow> insert_first dn (remove n d)))"

text \<open>The records of a snapshot line up with the elements of a tree: the \<open>i\<close>-th
  record has index \<open>i\<close> and the tag of the \<open>i\<close>-th snapshotted element.\<close>

definition aligned :: "original_state \<Rightarrow> node \<Rightarrow> bool" where
  "aligned st n =
     (map (\<lambda>r. (orig_index r, orig_tagName r)) (st_elements st)
        = enumerate 0 (map (elementTag n) (matching snapshotted n)))"

text \<open>The invariant of the coloring loop: the subtree \<open>n\<close> of the target, compared
  with the subtree \<open>n1\<close> the loop started with.\<close>

definition good :: "original_state \<Rightarrow> node \<Rightarrow> node \<Rightarrow> bool" where
  "good st n1 n =
     (tagName n = tagName n1 \<and> attributes n = attributes n1
      \<and> matching snapshotted n = matching snapshotted n1
      \<and> matching [''defs''] n = matching [''defs''] n1
      \<and> aligned st n \<and> resetTree st n = resetTree st n1)"

text \<open>The invariant, for the document \<open>d\<close> and the target at position \<open>p\<close>.\<close>

definition holds :: "ref \<Rightarrow> original_state \<Rightarrow> node \<Rightarrow> node \<Rightarrow> bool" where
  "holds p st n1 d = (\<exists>n. node_at d p = Some n \<and> good st n1 n)"

text \<open>The empty \<^verbatim>\<open>defs\<close> element \<^verbatim>\<open>createDefsElement\<close> creates.\<close>

definition emptyDefs :: node where
  "emptyDefs = Node ''defs'' Map.empty []"

section \<open>Evaluation rules\<close>

lemmas dom_defs =
  getAttribute_def setAttribute_def removeAttribute_def set_attr_def del_attr_def
  querySelectorAll_def querySelector_def closest_g_def matches_g_def
  insert_first_def append_child_def drop_child_def appendChild_def remove_def
  after_insert_def truthy_def isPaint_def elementId_def elementTag_def
  paintable_def snapshotted_def toLowerCase_def jsString_def

lemmas op_defs =
  shouldProcessElementColor_def hasOwnOrInherited_def filterAccepts_def
  emit_def Math_random_def Date_now_def generateRandomColor_def generateRandomGradient_def
  saveOriginalState_def applyColorToElement_def createDefsElement_def applyElement_def
  applyRandomColors_def applyPathElement_def applyRandomPathColors_def
  restoreElement_def resetColors_def Let_def

lemmas input_defs =
  host0_def hostTick_def pathDefaults_def pathShared_def cfg0_def col0_def colFill_def colShared_def colReject_def st0_def
  stColored_def docDefsLast_def docDefsFront_def hostGradient_def docFilled_def docNoId_def docLine_def docBare_def docBoth_def docGroup_def
  docGroupNone_def

section \<open>Facts about the document primitives\<close>

lemma set_attr_on: "set_attr k v = on_attrs (\<lambda>a. a(k \<mapsto> v))"
  by (rule ext) (simp add: set_attr_def on_attrs_def)

lemma del_attr_on: "del_attr k = on_attrs (\<lambda>a. a(k := None))"
  by (rule ext) (simp add: del_attr_def on_attrs_def)

lemma on_attrs_sel [simp]:
  "tagName (on_attrs \<phi> n) = tagName n"
  "attributes (on_attrs \<phi> n) = \<phi> (attributes n)"
  "childNodes (on_attrs \<phi> n) = childNodes n"
  by (simp_all add: on_attrs_def)

lemma append_child_sel [simp]:
  "tagName (append_child c n) = tagName n"
  "attributes (append_child c n) = attributes n"
  "childNodes (append_child c n) = childNodes n @ [c]"
  by (simp_all add: append_child_def)

lemma node_at_append:
  "node_at d (p @ q) = (case node_at d p of None \<Rightarrow> None | Some n \<Rightarrow> node_at n q)"
  by (induction p arbitrary: d) auto

lemma map_at_append: "map_at (p @ q) f d = map_at p (map_at q f) d"
  by (induction p arbitrary: d) auto

lemma node_at_map_at_prefix:
  "node_at (map_at (p @ q) f d) p = map_option (map_at q f) (node_at d p)"
  by (induction p arbitrary: d) auto

lemma map_at_Nil: "map_at [] f = f"
  by (rule ext) simp

lemma node_at_map_at_same: "node_at (map_at r f d) r = map_option f (node_at d r)"
  using node_at_map_at_prefix [of r "[]" f d] by (simp add: map_at_Nil)

lemma tagName_map_at: "(\<And>n. tagName (f n) = tagName n) \<Longrightarrow> tagName (map_at r f d) = tagName d"
  by (cases r) auto

lemma map_at_compose: "map_at r f (map_at r g d) = map_at r (f \<circ> g) d"
  by (induction r arbitrary: d) auto

lemma map_at_ident: "(\<And>n. node_at d r = Some n \<Longrightarrow> f n = n) \<Longrightarrow> map_at r f d = d"
proof (induction r arbitrary: d)
  case Nil
  then show ?case by simp
next
  case (Cons i r)
  show ?case
  proof (cases "i < length (childNodes d)")
    case True
    have "map_at r f (childNodes d ! i) = childNodes d ! i"
      by (rule Cons.IH) (use Cons.prems True in simp)
    with True show ?thesis by (cases d) simp
  next
    case False
    then show ?thesis by simp
  qed
qed

lemma node_at_on_attrs_tag:
  "map_option tagName (node_at (map_at r (on_attrs \<phi>) d) q) = map_option tagName (node_at d q)"
proof (induction r arbitrary: d q)
  case Nil
  then show ?case by (cases q) auto
next
  case (Cons i r)
  show ?case
  proof (cases q)
    case Nil
    then show ?thesis by simp
  next
    case (Cons j q')
    then show ?thesis using Cons.IH by (auto simp: nth_list_update)
  qed
qed


lemma node_at_on_attrs_None:
  "node_at (map_at r (on_attrs \<phi>) d) q = None \<longleftrightarrow> node_at d q = None"
  using node_at_on_attrs_tag [of r \<phi> d q] by (metis option.map_disc_iff)

lemma elementTag_on_attrs [simp]: "elementTag (map_at r (on_attrs \<phi>) d) q = elementTag d q"
  using node_at_on_attrs_tag [of r \<phi> d q]
  by (auto simp: elementTag_def split: option.splits)



subsection \<open>Selectors\<close>

lemma matching_unfold: "matching sel n = matching_from sel 0 (childNodes n)"
  by (cases n) simp

lemma matching_from_update:
  "i < length cs \<Longrightarrow> tagName c' = tagName (cs ! i) \<Longrightarrow> matching sel c' = matching sel (cs ! i)
   \<Longrightarrow> matching_from sel k (cs[i := c']) = matching_from sel k cs"
proof (induction cs arbitrary: i k)
  case Nil
  then show ?case by simp
next
  case (Cons c cs)
  then show ?case by (cases i) auto
qed

lemma matching_from_append:
  "matching_from sel k (cs @ cs') = matching_from sel k cs @ matching_from sel (k + length cs) cs'"
  by (induction cs arbitrary: k) auto

lemma matching_on_attrs [simp]: "matching sel (map_at r (on_attrs \<phi>) d) = matching sel d"
proof (induction r arbitrary: d)
  case Nil
  then show ?case by (simp add: matching_unfold)
next
  case (Cons i r)
  show ?case
  proof (cases "i < length (childNodes d)")
    case True
    have "matching_from sel 0 ((childNodes d)[i := map_at r (on_attrs \<phi>) (childNodes d ! i)])
            = matching_from sel 0 (childNodes d)"
      by (rule matching_from_update [OF True]) (simp_all add: tagName_map_at Cons.IH)
    with True show ?thesis by (simp add: matching_unfold)
  next
    case False
    then show ?thesis by simp
  qed
qed

lemma matching_append_child:
  "node_at d dq \<noteq> None \<Longrightarrow> tagName c \<notin> set sel \<Longrightarrow> matching sel c = [] \<Longrightarrow>
   matching sel (map_at dq (append_child c) d) = matching sel d"
proof (induction dq arbitrary: d)
  case Nil
  then show ?case by (simp add: matching_unfold append_child_def matching_from_append)
next
  case (Cons i r)
  from Cons.prems(1) have i: "i < length (childNodes d)" by (auto split: if_splits)
  with Cons.prems(1) have "node_at (childNodes d ! i) r \<noteq> None" by simp
  from Cons.IH [OF this Cons.prems(2,3)]
  have "matching_from sel 0 ((childNodes d)[i := map_at r (append_child c) (childNodes d ! i)])
            = matching_from sel 0 (childNodes d)"
    by (intro matching_from_update [OF i]) (simp_all add: tagName_map_at)
  with i show ?case by (simp add: matching_unfold)
qed

lemma matching_from_Suc: "matching_from sel (Suc k) cs = map shift (matching_from sel k cs)"
  by (induction cs arbitrary: k) (auto simp: shift_def)

lemma matching_insert_first:
  "tagName c \<notin> set sel \<Longrightarrow> matching sel c = [] \<Longrightarrow>
   matching sel (insert_first c n) = map shift (matching sel n)"
  by (simp add: matching_unfold insert_first_def matching_from_Suc [of sel 0])

lemma matching_mem_both:
  "(\<forall>q. q \<in> set (matching sel n) \<longleftrightarrow>
        q \<noteq> [] \<and> (\<exists>m. node_at n q = Some m \<and> tagName m \<in> set sel))"
  "(\<forall>q. q \<in> set (matching_from sel k cs) \<longleftrightarrow>
        (\<exists>j q'. q = (k + j) # q' \<and> j < length cs
           \<and> (\<exists>m. node_at (cs ! j) q' = Some m \<and> tagName m \<in> set sel)))"
proof (induction sel n and sel k cs rule: matching_matching_from.induct)
  case (1 sel t a cs)
  show ?case
  proof
    fix q
    show "q \<in> set (matching sel (Node t a cs)) \<longleftrightarrow>
        q \<noteq> [] \<and> (\<exists>m. node_at (Node t a cs) q = Some m \<and> tagName m \<in> set sel)"
      using 1 by (cases q) auto
  qed
next
  case (2 sel i)
  show ?case by simp
next
  case (3 sel i c cs)
  show ?case
  proof
    fix q
    show "q \<in> set (matching_from sel i (c # cs)) \<longleftrightarrow>
        (\<exists>j q'. q = (i + j) # q' \<and> j < length (c # cs)
           \<and> (\<exists>m. node_at ((c # cs) ! j) q' = Some m \<and> tagName m \<in> set sel))" (is "?L \<longleftrightarrow> ?R")
    proof
      assume ?L
      then consider "tagName c \<in> set sel" "q = [i]"
        | q' where "q = i # q'" "q' \<in> set (matching sel c)"
        | "q \<in> set (matching_from sel (Suc i) cs)"
        by (auto split: if_splits)
      then show ?R
      proof cases
        case 1
        then have "q = (i + 0) # [] \<and> 0 < length (c # cs)
           \<and> (\<exists>m. node_at ((c # cs) ! 0) [] = Some m \<and> tagName m \<in> set sel)" by simp
        then show ?thesis by blast
      next
        case 2
        with 3(1) have "\<exists>m. node_at c q' = Some m \<and> tagName m \<in> set sel" by blast
        with 2 have "q = (i + 0) # q' \<and> 0 < length (c # cs)
           \<and> (\<exists>m. node_at ((c # cs) ! 0) q' = Some m \<and> tagName m \<in> set sel)" by simp
        then show ?thesis by blast
      next
        case 3
        with "3.IH"(2) obtain j q' m where "q = (Suc i + j) # q'" "j < length cs"
          "node_at (cs ! j) q' = Some m" "tagName m \<in> set sel" by blast
        then have "q = (i + Suc j) # q' \<and> Suc j < length (c # cs)
           \<and> (\<exists>m. node_at ((c # cs) ! Suc j) q' = Some m \<and> tagName m \<in> set sel)" by simp
        then show ?thesis by blast
      qed
    next
      assume ?R
      then obtain j q' m where j: "q = (i + j) # q'" "j < length (c # cs)"
        "node_at ((c # cs) ! j) q' = Some m" "tagName m \<in> set sel" by blast
      show ?L
      proof (cases j)
        case 0
        show ?thesis
        proof (cases "q' = []")
          case True
          with j 0 show ?thesis by simp
        next
          case False
          with j 0 "3.IH"(1) have "q' \<in> set (matching sel c)" by auto
          with j 0 show ?thesis by simp
        qed
      next
        case (Suc j')
        with j have "\<exists>j q'a. (Suc i + j') # q' = (Suc i + j) # q'a \<and> j < length cs
           \<and> (\<exists>m. node_at (cs ! j) q'a = Some m \<and> tagName m \<in> set sel)" by auto
        with "3.IH"(2) have "(Suc i + j') # q' \<in> set (matching_from sel (Suc i) cs)" by blast
        with j Suc show ?thesis by simp
      qed
    qed
  qed
qed

lemma matching_mem:
  "q \<in> set (matching sel n) \<longleftrightarrow> q \<noteq> [] \<and> (\<exists>m. node_at n q = Some m \<and> tagName m \<in> set sel)"
  using matching_mem_both(1) by blast

section \<open>The classifier\<close>

text \<open>
  C6 (amended). For an element that has an own or inherited stroke and no own or
  inherited fill (\<^verbatim>\<open>none\<close>, \<^verbatim>\<open>transparent\<close> and the empty string counting as
  absent): with \<^verbatim>\<open>preserveLinearStyle\<close> the classifier returns false for the fill
  channel; without it the classifier returns true for the fill channel, provided
  the element filter, when one is set, accepts the element.
\<close>

theorem linear_style_fill:
  assumes "hasOwnOrInherited doc element ''stroke''"
    and "\<not> hasOwnOrInherited doc element ''fill''"
  shows "(preserveLinearStyle (config c) \<longrightarrow> \<not> shouldProcessElementColor c doc element ''fill'')
       \<and> (\<not> preserveLinearStyle (config c) \<and> filterAccepts c doc element
            \<longrightarrow> shouldProcessElementColor c doc element ''fill'')"
  using assms
  unfolding shouldProcessElementColor_def hasOwnOrInherited_def filterAccepts_def isPaint_def Let_def
  by (auto split: option.splits)

theorem linear_style_fill_witness:
  "hasOwnOrInherited docLine [0] ''stroke'' \<and> \<not> hasOwnOrInherited docLine [0] ''fill''
   \<and> preserveLinearStyle (config col0) \<and> \<not> shouldProcessElementColor col0 docLine [0] ''fill''
   \<and> \<not> preserveLinearStyle (config colFill) \<and> filterAccepts colFill docLine [0]
   \<and> shouldProcessElementColor colFill docLine [0] ''fill''"
proof -
  have h1: "hasOwnOrInherited docLine [0] ''stroke''"
    by (simp add: hasOwnOrInherited_def dom_defs docLine_def)
  have h2: "\<not> hasOwnOrInherited docLine [0] ''fill''"
    by (simp add: hasOwnOrInherited_def dom_defs docLine_def)
  have h3: "preserveLinearStyle (config col0)" "\<not> preserveLinearStyle (config colFill)"
    "filterAccepts colFill docLine [0]"
    by (simp_all add: input_defs filterAccepts_def)
  show ?thesis
    using h1 h2 h3 linear_style_fill [OF h1 h2, of col0] linear_style_fill [OF h1 h2, of colFill]
    by blast
qed

text \<open>
  C6 as stated fails: with \<^verbatim>\<open>preserveLinearStyle: false\<close> and an element filter
  that rejects the element, the classifier returns false for the fill channel of
  a stroke-only element.
\<close>

theorem linear_style_fill_counterexample:
  "hasOwnOrInherited docLine [0] ''stroke'' \<and> \<not> hasOwnOrInherited docLine [0] ''fill''
   \<and> \<not> preserveLinearStyle (config colReject)
   \<and> \<not> shouldProcessElementColor colReject docLine [0] ''fill''"
  by (simp add: op_defs dom_defs input_defs)

text \<open>
  C7 (amended). For an element with neither an own or inherited fill nor an own
  or inherited stroke, the classifier returns false for the stroke channel, and
  true for the fill channel provided the element filter, when one is set,
  accepts the element.
\<close>

theorem colorless_element:
  assumes "\<not> hasOwnOrInherited doc element ''fill''"
    and "\<not> hasOwnOrInherited doc element ''stroke''"
  shows "(filterAccepts c doc element \<longrightarrow> shouldProcessElementColor c doc element ''fill'')
       \<and> \<not> shouldProcessElementColor c doc element ''stroke''"
  using assms
  unfolding shouldProcessElementColor_def hasOwnOrInherited_def filterAccepts_def isPaint_def Let_def
  by (auto split: option.splits)

theorem colorless_element_witness:
  "\<not> hasOwnOrInherited docBare [0] ''fill'' \<and> \<not> hasOwnOrInherited docBare [0] ''stroke''
   \<and> filterAccepts col0 docBare [0]
   \<and> shouldProcessElementColor col0 docBare [0] ''fill''
   \<and> \<not> shouldProcessElementColor col0 docBare [0] ''stroke''"
proof -
  have h1: "\<not> hasOwnOrInherited docBare [0] ''fill''"
    by (simp add: hasOwnOrInherited_def dom_defs docBare_def)
  have h2: "\<not> hasOwnOrInherited docBare [0] ''stroke''"
    by (simp add: hasOwnOrInherited_def dom_defs docBare_def)
  have h3: "filterAccepts col0 docBare [0]"
    by (simp add: input_defs filterAccepts_def)
  show ?thesis
    using h1 h2 h3 colorless_element [OF h1 h2, of col0] by blast
qed

text \<open>
  C7 as stated fails: an element filter that rejects the element makes the
  classifier return false for the fill channel of a colorless element.
\<close>

theorem colorless_element_counterexample:
  "\<not> hasOwnOrInherited docBare [0] ''fill'' \<and> \<not> hasOwnOrInherited docBare [0] ''stroke''
   \<and> \<not> shouldProcessElementColor colReject docBare [0] ''fill''"
  by (simp add: op_defs dom_defs input_defs)

section \<open>Gradient identifiers\<close>

lemma decimal_nonempty: "decimal n \<noteq> []"
  by (subst decimal.simps) simp

lemma digit_inj: "a < 10 \<Longrightarrow> b < 10 \<Longrightarrow> digit a = digit b \<Longrightarrow> a = b"
proof -
  assume a: "a < 10" and b: "b < 10" and e: "digit a = digit b"
  have d: "distinct ''0123456789''" by simp
  have "a < length ''0123456789''" "b < length ''0123456789''" using a b by simp_all
  with d e show "a = b" unfolding digit_def by (simp only: nth_eq_iff_index_eq)
qed

lemma decimal_inj: "decimal m = decimal n \<Longrightarrow> m = n"
proof (induction m arbitrary: n rule: decimal.induct)
  case (1 m)
  show ?case
  proof (cases "m < 10")
    case True
    show ?thesis
    proof (cases "n < 10")
      case nsmall: True
      from "1.prems" True nsmall have "digit m = digit n"
        by (simp add: decimal.simps)
      with True nsmall show ?thesis by (simp add: digit_inj)
    next
      case False
      from "1.prems" True False have "[digit m] = decimal (n div 10) @ [digit (n mod 10)]"
        by (simp add: decimal.simps [of m] decimal.simps [of n])
      then show ?thesis using decimal_nonempty [of "n div 10"] by simp
    qed
  next
    case mbig: False
    show ?thesis
    proof (cases "n < 10")
      case True
      from "1.prems" True mbig have "decimal (m div 10) @ [digit (m mod 10)] = [digit n]"
        by (simp add: decimal.simps [of m] decimal.simps [of n])
      then show ?thesis using decimal_nonempty [of "m div 10"] by simp
    next
      case False
      from "1.prems" mbig False
      have "decimal (m div 10) @ [digit (m mod 10)] = decimal (n div 10) @ [digit (n mod 10)]"
        by (simp add: decimal.simps [of m] decimal.simps [of n])
      then have e1: "decimal (m div 10) = decimal (n div 10)"
        and e2: "digit (m mod 10) = digit (n mod 10)" by simp_all
      from "1.IH" [OF mbig e1] have q: "m div 10 = n div 10" .
      have r: "m mod 10 = n mod 10" using e2 by (intro digit_inj) simp_all
      from q r show ?thesis by (metis div_mult_mod_eq)
    qed
  qed
qed

lemma gradient_token:
  "snd (fst (generateRandomGradient h c seed s))
     = ''url(#gradient-'' @ seed @ ''-'' @ decimal (dateNow h (nowCalls s)) @ '')''"
  by (simp add: generateRandomGradient_def generateRandomColor_def Math_random_def Date_now_def
      Let_def split: prod.splits)

lemma gradient_clock: "nowCalls (snd (generateRandomGradient h c seed s)) = Suc (nowCalls s)"
  by (simp add: generateRandomGradient_def generateRandomColor_def Math_random_def Date_now_def
      Let_def split: prod.splits)

text \<open>
  C5 (amended). Two calls of \<^verbatim>\<open>generateRandomGradient\<close> with the same seed,
  made in the states \<open>s\<close> and \<open>s'\<close> of one process, return the same reference
  token exactly when \<^verbatim>\<open>Date.now()\<close> reads the same millisecond at both calls:
  the tokens are distinct if and only if the two clock readings differ.
\<close>

theorem gradient_tokens:
  "(snd (fst (generateRandomGradient h c seed s)) = snd (fst (generateRandomGradient h c seed s')))
     = (dateNow h (nowCalls s) = dateNow h (nowCalls s'))"
  by (auto simp: gradient_token dest: decimal_inj)

theorem gradient_tokens_witness:
  "snd (fst (generateRandomGradient hostTick col0 ''logo'' (st0 docFilled)))
     \<noteq> snd (fst (generateRandomGradient hostTick col0 ''logo''
         (snd (generateRandomGradient hostTick col0 ''logo'' (st0 docFilled)))))"
  using gradient_tokens [of hostTick col0 "''logo''" "st0 docFilled"
      "snd (generateRandomGradient hostTick col0 ''logo'' (st0 docFilled))"]
  by (simp add: gradient_clock hostTick_def st0_def)

text \<open>
  C5 as stated fails: when the clock reads the same millisecond twice, two
  successive calls with the same seed return the same token.
\<close>

theorem gradient_tokens_counterexample:
  "snd (fst (generateRandomGradient host0 col0 ''logo'' (st0 docFilled)))
     = snd (fst (generateRandomGradient host0 col0 ''logo''
         (snd (generateRandomGradient host0 col0 ''logo'' (st0 docFilled)))))"
  by (simp add: gradient_token host0_def)

section \<open>Reset without a snapshot\<close>

text \<open>
  C9. When the target has no identifier, or no snapshot is stored under its
  identifier, \<^verbatim>\<open>resetColors\<close> returns false and leaves the document and the
  stored snapshots as they are; for a target that is an element it changes
  nothing at all and emits no event.
\<close>

theorem reset_without_snapshot:
  assumes "elementId (document s) svgElement = []
           \<or> svgStates s (elementId (document s) svgElement) = None"
  shows "fst (resetColors svgElement s) = False
       \<and> document (snd (resetColors svgElement s)) = document s
       \<and> svgStates (snd (resetColors svgElement s)) = svgStates s
       \<and> (node_at (document s) svgElement \<noteq> None \<longrightarrow> snd (resetColors svgElement s) = s)"
  using assms by (auto simp: resetColors_def emit_def Let_def split: option.splits)

theorem reset_without_snapshot_witness:
  "svgStates (st0 docFilled) (elementId (document (st0 docFilled)) []) = None
   \<and> node_at (document (st0 docFilled)) [] \<noteq> None
   \<and> fst (resetColors [] (st0 docFilled)) = False
   \<and> snd (resetColors [] (st0 docFilled)) = st0 docFilled"
proof -
  have h: "svgStates (st0 docFilled) (elementId (document (st0 docFilled)) []) = None"
    by (simp add: st0_def)
  have n: "node_at (document (st0 docFilled)) [] \<noteq> None" by simp
  from h have "elementId (document (st0 docFilled)) [] = []
      \<or> svgStates (st0 docFilled) (elementId (document (st0 docFilled)) []) = None" ..
  from reset_without_snapshot [OF this] h n show ?thesis by blast
qed

section \<open>Where the code departs from its description\<close>

text \<open>
  C2. \<^verbatim>\<open>applyRandomColors\<close> on \<^verbatim>\<open><svg><path fill="#111"/></svg>\<close>, a target
  without an identifier: the call succeeds, recolors the path and stores a
  snapshot under the synthesized key \<^verbatim>\<open>svg-0-i\<close>, but the element's
  \<^verbatim>\<open>id\<close> is still absent afterwards, and the following \<^verbatim>\<open>resetColors\<close> returns
  false and changes nothing.
\<close>

theorem missing_id_not_assigned:
  "fst (applyRandomColors host0 col0 [] (st0 docNoId))
   \<and> getAttribute docNoId [0] ''fill'' = Some ''#111''
   \<and> getAttribute (document (snd (applyRandomColors host0 col0 [] (st0 docNoId)))) [1] ''fill''
       = Some ''#ff6b6b''
   \<and> svgStates (snd (applyRandomColors host0 col0 [] (st0 docNoId))) ''svg-0-i'' \<noteq> None
   \<and> getAttribute (document (snd (applyRandomColors host0 col0 [] (st0 docNoId)))) [] ''id'' = None
   \<and> resetColors [] (snd (applyRandomColors host0 col0 [] (st0 docNoId)))
       = (False, snd (applyRandomColors host0 col0 [] (st0 docNoId)))"
  by (simp add: op_defs dom_defs input_defs decimal.simps digit_def)

text \<open>\<^verbatim>\<open>applyRandomPathColors\<close> never touches the stored snapshots.\<close>

lemma applyPathElement_svgStates:
  "applyPathElement h c b element index s = Inl (e, s1) \<Longrightarrow> svgStates s1 = svgStates s"
  "applyPathElement h c b element index s = Inr s1 \<Longrightarrow> svgStates s1 = svgStates s"
  by (auto simp: applyPathElement_def generateRandomColor_def Math_random_def emit_def Let_def
      split: if_splits)

lemma pathLoop_svgStates:
  "pathLoop h c b elements indices s k = (e, s1, k1) \<Longrightarrow> svgStates s1 = svgStates s"
proof (induction indices arbitrary: s k)
  case Nil
  then show ?case by simp
next
  case (Cons i indices)
  then show ?case
    by (auto split: sum.splits if_splits dest: applyPathElement_svgStates)
qed

lemma applyRandomPathColors_svgStates:
  "svgStates (snd (applyRandomPathColors h c svgElement options s)) = svgStates s"
  by (auto simp: applyRandomPathColors_def emit_def Let_def
      split: option.splits prod.splits dest: pathLoop_svgStates)

text \<open>
  C3. \<^verbatim>\<open>applyRandomPathColors\<close> on \<^verbatim>\<open><svg id="a"><path fill="#111"/></svg>\<close> with
  a fresh instance: the call succeeds and recolors the path, no snapshot is
  stored, and the following \<^verbatim>\<open>resetColors\<close> returns false and changes nothing.
\<close>

theorem path_colors_take_no_snapshot:
  "fst (applyRandomPathColors host0 col0 [] pathDefaults (st0 docFilled))
   \<and> getAttribute docFilled [0] ''fill'' = Some ''#111''
   \<and> getAttribute (document (snd (applyRandomPathColors host0 col0 [] pathDefaults (st0 docFilled))))
         [0] ''fill'' = Some ''#ff6b6b''
   \<and> svgStates (snd (applyRandomPathColors host0 col0 [] pathDefaults (st0 docFilled))) = Map.empty
   \<and> resetColors [] (snd (applyRandomPathColors host0 col0 [] pathDefaults (st0 docFilled)))
       = (False, snd (applyRandomPathColors host0 col0 [] pathDefaults (st0 docFilled)))"
  by (simp add: op_defs dom_defs input_defs)

lemma docBoth_stroke_classified:
  "shouldProcessElementColor colShared docBoth [0] ''stroke''"
  by (simp add: op_defs dom_defs input_defs)

text \<open>
  C4. On \<^verbatim>\<open><svg id="a"><path fill="#111" stroke="#222"/></svg>\<close> with
  \<^verbatim>\<open>independentColors: false\<close> the stroke channel is classified for processing.
  \<^verbatim>\<open>applyRandomColors\<close> writes the new fill \<^verbatim>\<open>#ff6b6b\<close>, then fails reading
  \<^verbatim>\<open>fillColor\<close>: the stroke keeps its old value, an error event is emitted and
  the element is not counted as processed. \<^verbatim>\<open>applyRandomPathColors\<close> with
  \<^verbatim>\<open>{independentColors: false}\<close> likewise leaves the stroke untouched and ends
  with an error event.
\<close>

theorem shared_stroke_throws:
  "\<not> independentColors (config colShared)
   \<and> getAttribute (document (snd (applyRandomColors host0 colShared [] (st0 docBoth)))) [1] ''fill''
       = Some ''#ff6b6b''
   \<and> getAttribute (document (snd (applyRandomColors host0 colShared [] (st0 docBoth)))) [1] ''stroke''
       = Some ''#222''
   \<and> emitted (snd (applyRandomColors host0 colShared [] (st0 docBoth)))
       = [ColorApplied [1] ''fill'' (Some ''#ff6b6b'') None,
          ErrorEvent (ReferenceError ''fillColor'') [1] (Some 0),
          Complete 0 1 []]
   \<and> getAttribute (document (snd (applyRandomPathColors host0 col0 []
          \<lparr>pathIndices = None, optIndependentColors = Some False\<rparr> (st0 docBoth)))) [0] ''stroke''
       = Some ''#222''
   \<and> emitted (snd (applyRandomPathColors host0 col0 []
          \<lparr>pathIndices = None, optIndependentColors = Some False\<rparr> (st0 docBoth)))
       = [ColorApplied [0] ''fill'' (Some ''#ff6b6b'') (Some 0),
          ErrorEvent (ReferenceError ''fillColor'') [] None]"
  by (simp add: op_defs dom_defs input_defs)

text \<open>
  C10. \<^verbatim>\<open>applyRandomPathColors\<close> with \<^verbatim>\<open>{pathIndices: [0, 7], independentColors: false}\<close>
  on \<^verbatim>\<open><svg id="a"><path fill="#111" stroke="#222"/></svg>\<close>, which has one
  paintable element: the call returns false and emits an error event and no
  \<^verbatim>\<open>complete\<close> event.
\<close>

theorem path_indices_abort:
  "querySelectorAll docBoth [] paintable = [[0]]
   \<and> fst (applyRandomPathColors host0 col0 [] pathShared (st0 docBoth)) = False
   \<and> emitted (snd (applyRandomPathColors host0 col0 [] pathShared (st0 docBoth)))
       = [ColorApplied [0] ''fill'' (Some ''#ff6b6b'') (Some 0),
          ErrorEvent (ReferenceError ''fillColor'') [] None]"
  by (simp add: op_defs dom_defs input_defs)

text \<open>
  With \<^verbatim>\<open>independentColors\<close> left at its default or set to true, the loop over
  the requested indices cannot fail: indices out of range are skipped without
  any effect, every index in range is counted, and the call returns true with a
  \<^verbatim>\<open>complete\<close> event whose \<^verbatim>\<open>totalCount\<close> is the length of the requested list.
\<close>

lemma pathLoop_skips:
  "pathLoop h c b elements indices s k
     = pathLoop h c b elements [i \<leftarrow> indices. 0 \<le> i \<and> i < int (length elements)] s k"
  by (induction indices arbitrary: s k) (auto split: sum.splits prod.splits)

lemma applyPathElement_independent: "\<exists>s1. applyPathElement h c True element index s = Inr s1"
  by (simp add: applyPathElement_def Let_def split: prod.splits)

lemma pathLoop_independent:
  "\<exists>s1. pathLoop h c True elements indices s k
     = (None, s1, k + length [i \<leftarrow> indices. 0 \<le> i \<and> i < int (length elements)])"
proof (induction indices arbitrary: s k)
  case Nil
  then show ?case by simp
next
  case (Cons i indices)
  show ?case
  proof (cases "0 \<le> i \<and> i < int (length elements)")
    case True
    obtain s1 where s1: "applyPathElement h c True (elements ! nat i) i s = Inr s1"
      using applyPathElement_independent by blast
    from Cons.IH [of s1 "Suc k"] True s1 show ?thesis by auto
  next
    case False
    with Cons.IH [of s k] show ?thesis by auto
  qed
qed

lemma path_indices_independent:
  assumes "node_at (document s) svgElement \<noteq> None"
    and "querySelectorAll (document s) svgElement paintable \<noteq> []"
    and "optIndependentColors options \<noteq> Some False"
    and "pathIndices options = Some indices"
  shows "\<exists>s1. applyRandomPathColors h c svgElement options s
     = (True, emit (Complete
          (length [i \<leftarrow> indices.
             0 \<le> i \<and> i < int (length (querySelectorAll (document s) svgElement paintable))])
          (length indices) svgElement) s1)"
proof -
  let ?els = "querySelectorAll (document s) svgElement paintable"
  have b: "(case optIndependentColors options of None \<Rightarrow> True | Some b \<Rightarrow> b) = True"
    using assms(3) by (cases "optIndependentColors options") auto
  obtain s1 where "pathLoop h c True ?els indices s 0
     = (None, s1, 0 + length [i \<leftarrow> indices. 0 \<le> i \<and> i < int (length ?els)])"
    using pathLoop_independent by blast
  with assms b show ?thesis
    by (auto simp: applyRandomPathColors_def Let_def split: option.splits)
qed

section \<open>The write target\<close>

lemma closest_g_Nil: "closest_g doc [] a = (if matches_g doc a [] then Some [] else None)"
  by (simp add: closest_g_def)

lemma closest_g_snoc:
  "closest_g doc (r @ [i]) a
     = (if matches_g doc a (r @ [i]) then Some (r @ [i]) else closest_g doc r a)"
  by (simp add: closest_g_def prefixes_snoc)

lemma closest_g_Some:
  "closest_g doc el a = Some g \<Longrightarrow>
     prefix g el \<and> matches_g doc a g
     \<and> (\<forall>r. prefix r el \<and> length g < length r \<longrightarrow> \<not> matches_g doc a r)"
proof (induction el rule: rev_induct)
  case Nil
  then show ?case by (auto simp: closest_g_Nil split: if_splits)
next
  case (snoc i el)
  show ?case
  proof (cases "matches_g doc a (el @ [i])")
    case True
    with snoc.prems have "g = el @ [i]" by (simp add: closest_g_snoc)
    with True show ?thesis by (auto dest: prefix_length_le)
  next
    case False
    with snoc.prems have "closest_g doc el a = Some g" by (simp add: closest_g_snoc)
    from snoc.IH [OF this] False show ?thesis by auto
  qed
qed

lemma closest_g_None:
  "closest_g doc el a = None \<Longrightarrow> prefix r el \<Longrightarrow> \<not> matches_g doc a r"
proof (induction el rule: rev_induct)
  case Nil
  then show ?case by (auto simp: closest_g_Nil split: if_splits)
next
  case (snoc i el)
  then show ?case by (auto simp: closest_g_snoc split: if_splits)
qed









section \<open>Restoring from a snapshot\<close>

lemma on_attrs_compose: "on_attrs \<phi> \<circ> on_attrs \<psi> = on_attrs (\<phi> \<circ> \<psi>)"
  by (rule ext) (simp add: on_attrs_def)

lemma update_attribute:
  "(case x of Some v \<Rightarrow> setAttribute d e k v | None \<Rightarrow> removeAttribute d e k)
     = map_at e (on_attrs (\<lambda>a. a(k := x))) d"
  by (cases x) (simp_all add: setAttribute_def removeAttribute_def set_attr_on del_attr_on)

lemma restoreElement_valid:
  assumes "orig_index rec < length els"
    and "elementTag d (els ! orig_index rec) = orig_tagName rec"
  shows "restoreElement els d rec = map_at (els ! orig_index rec) (on_attrs (restore_attrs rec)) d"
proof -
  have "(\<lambda>a. a(''style'' := orig_style rec)) \<circ> (\<lambda>a. a(''stroke'' := orig_stroke rec))
          \<circ> (\<lambda>a. a(''fill'' := orig_fill rec)) = restore_attrs rec"
    by (rule ext) (simp add: restore_attrs_def)
  with assms show ?thesis
    by (simp add: restoreElement_def Let_def update_attribute map_at_compose on_attrs_compose)
qed

lemma restoreElement_invalid:
  "\<not> (orig_index rec < length els \<and> elementTag d (els ! orig_index rec) = orig_tagName rec)
   \<Longrightarrow> restoreElement els d rec = d"
  by (auto simp: restoreElement_def Let_def)

lemma restoreElement_cases:
  obtains (valid) "orig_index rec < length els"
      "elementTag d (els ! orig_index rec) = orig_tagName rec"
      "restoreElement els d rec = map_at (els ! orig_index rec) (on_attrs (restore_attrs rec)) d"
    | (invalid)
      "\<not> (orig_index rec < length els \<and> elementTag d (els ! orig_index rec) = orig_tagName rec)"
      "restoreElement els d rec = d"
  using restoreElement_valid restoreElement_invalid by blast

lemma restoreElement_tag [simp]: "elementTag (restoreElement els d rec) q = elementTag d q"
  by (rule restoreElement_cases [of rec els d]) simp_all

lemma restoreElement_matching [simp]: "matching sel (restoreElement els d rec) = matching sel d"
  by (rule restoreElement_cases [of rec els d]) simp_all

lemma restoreElement_None [simp]:
  "node_at (restoreElement els d rec) q = None \<longleftrightarrow> node_at d q = None"
  by (rule restoreElement_cases [of rec els d]) (simp_all add: node_at_on_attrs_None)

lemma foldl_restore_tag [simp]: "elementTag (foldl (restoreElement els) d recs) q = elementTag d q"
  by (induction recs arbitrary: d) simp_all

lemma foldl_restore_matching [simp]:
  "matching sel (foldl (restoreElement els) d recs) = matching sel d"
  by (induction recs arbitrary: d) simp_all

lemma foldl_restore_None [simp]:
  "node_at (foldl (restoreElement els) d recs) q = None \<longleftrightarrow> node_at d q = None"
  by (induction recs arbitrary: d) simp_all

subsection \<open>Commuting changes\<close>

lemma on_attrs_commute:
  "r \<noteq> r' \<Longrightarrow>
   map_at r (on_attrs \<phi>) (map_at r' (on_attrs \<psi>) d)
     = map_at r' (on_attrs \<psi>) (map_at r (on_attrs \<phi>) d)"
proof (induction r arbitrary: r' d)
  case Nil
  then show ?case by (cases r') (auto simp: on_attrs_def)
next
  case (Cons i r)
  show ?case
  proof (cases r')
    case Nil
    then show ?thesis by (auto simp: on_attrs_def)
  next
    case r': (Cons j q)
    show ?thesis
    proof (cases "i = j")
      case True
      with r' Cons.prems have "r \<noteq> q" by simp
      from Cons.IH [OF this] True r' show ?thesis by simp
    next
      case False
      with r' show ?thesis by (auto simp: list_update_swap)
    qed
  qed
qed

lemma on_attrs_append_commute:
  "node_at d r \<noteq> None \<Longrightarrow>
   map_at r (on_attrs \<phi>) (map_at dq (append_child c) d)
     = map_at dq (append_child c) (map_at r (on_attrs \<phi>) d)"
proof (induction r arbitrary: dq d)
  case Nil
  then show ?case by (cases dq) (auto simp: on_attrs_def append_child_def)
next
  case (Cons i r)
  from Cons.prems have i: "i < length (childNodes d)" by (auto split: if_splits)
  with Cons.prems have c: "node_at (childNodes d ! i) r \<noteq> None" by simp
  show ?case
  proof (cases dq)
    case Nil
    with i show ?thesis by (auto simp: append_child_def nth_append list_update_append1)
  next
    case dq: (Cons j q)
    show ?thesis
    proof (cases "i = j")
      case True
      from Cons.IH [OF c] True dq i show ?thesis by simp
    next
      case False
      with dq show ?thesis by (auto simp: list_update_swap)
    qed
  qed
qed

lemma elementTag_append_child:
  "node_at d q \<noteq> None \<Longrightarrow> elementTag (map_at dq (append_child c) d) q = elementTag d q"
proof (induction dq arbitrary: d q)
  case Nil
  then show ?case by (cases q) (auto simp: elementTag_def nth_append split: if_splits)
next
  case (Cons i dq)
  show ?case
  proof (cases q)
    case Nil
    then show ?thesis by (simp add: elementTag_def)
  next
    case q: (Cons j q')
    with Cons.prems have j: "j < length (childNodes d)" "node_at (childNodes d ! j) q' \<noteq> None"
      by (auto split: if_splits)
    show ?thesis
    proof (cases "i = j")
      case True
      with Cons.IH [OF j(2)] q j show ?thesis by (simp add: elementTag_def)
    next
      case False
      with q j show ?thesis by (simp add: elementTag_def)
    qed
  qed
qed

lemma node_at_append_child_Some:
  "node_at d q \<noteq> None \<Longrightarrow> node_at (map_at dq (append_child c) d) q \<noteq> None"
proof (induction dq arbitrary: d q)
  case Nil
  then show ?case by (cases q) (auto simp: nth_append split: if_splits)
next
  case (Cons i dq)
  show ?case
  proof (cases q)
    case Nil
    then show ?thesis by simp
  next
    case q: (Cons j q')
    with Cons.prems have j: "j < length (childNodes d)" "node_at (childNodes d ! j) q' \<noteq> None"
      by (auto split: if_splits)
    show ?thesis
    proof (cases "i = j")
      case True
      with Cons.IH [OF j(2)] q j show ?thesis by simp
    next
      case False
      with q j show ?thesis by simp
    qed
  qed
qed


subsection \<open>What the restoring loop absorbs\<close>

lemma restore_attrs_absorb:
  "k \<in> {''fill'', ''stroke'', ''style''} \<Longrightarrow> restore_attrs rec \<circ> (\<lambda>a. a(k := x)) = restore_attrs rec"
  by (rule ext) (auto simp: restore_attrs_def)

lemma foldl_restore_absorb:
  assumes "\<exists>rec \<in> set recs. orig_index rec < length els \<and> els ! orig_index rec = q
             \<and> elementTag d q = orig_tagName rec"
    and absorb: "\<And>rec. restore_attrs rec \<circ> \<phi> = restore_attrs rec"
  shows "foldl (restoreElement els) (map_at q (on_attrs \<phi>) d) recs = foldl (restoreElement els) d recs"
  using assms(1)
proof (induction recs arbitrary: d)
  case Nil
  then show ?case by simp
next
  case (Cons rec recs)
  show ?case
  proof (rule restoreElement_cases [of rec els d])
    assume v: "orig_index rec < length els"
      "elementTag d (els ! orig_index rec) = orig_tagName rec"
      and e: "restoreElement els d rec = map_at (els ! orig_index rec) (on_attrs (restore_attrs rec)) d"
    have e': "restoreElement els (map_at q (on_attrs \<phi>) d) rec
        = map_at (els ! orig_index rec) (on_attrs (restore_attrs rec)) (map_at q (on_attrs \<phi>) d)"
      by (rule restoreElement_valid) (simp_all add: v)
    show ?thesis
    proof (cases "els ! orig_index rec = q")
      case True
      have "restoreElement els (map_at q (on_attrs \<phi>) d) rec = restoreElement els d rec"
        by (simp add: e e' True map_at_compose on_attrs_compose absorb)
      then show ?thesis by simp
    next
      case False
      have c: "restoreElement els (map_at q (on_attrs \<phi>) d) rec
          = map_at q (on_attrs \<phi>) (restoreElement els d rec)"
        by (simp add: e e' on_attrs_commute [OF False])
      from Cons.prems False
      have "\<exists>rec' \<in> set recs. orig_index rec' < length els \<and> els ! orig_index rec' = q
             \<and> elementTag (restoreElement els d rec) q = orig_tagName rec'"
        by auto
      from Cons.IH [OF this] c show ?thesis by simp
    qed
  next
    assume inv: "\<not> (orig_index rec < length els
        \<and> elementTag d (els ! orig_index rec) = orig_tagName rec)"
      and e: "restoreElement els d rec = d"
    have e': "restoreElement els (map_at q (on_attrs \<phi>) d) rec = map_at q (on_attrs \<phi>) d"
      by (rule restoreElement_invalid) (use inv in simp)
    from Cons.prems inv
    have "\<exists>rec' \<in> set recs. orig_index rec' < length els \<and> els ! orig_index rec' = q
             \<and> elementTag d q = orig_tagName rec'"
      by auto
    from Cons.IH [OF this] e e' show ?thesis by simp
  qed
qed

lemma restoreElement_append_commute:
  assumes "\<forall>q \<in> set els. node_at d q \<noteq> None"
  shows "restoreElement els (map_at dq (append_child c) d) rec
           = map_at dq (append_child c) (restoreElement els d rec)"
proof (rule restoreElement_cases [of rec els d])
  assume v: "orig_index rec < length els"
    "elementTag d (els ! orig_index rec) = orig_tagName rec"
    and e: "restoreElement els d rec = map_at (els ! orig_index rec) (on_attrs (restore_attrs rec)) d"
  from v(1) assms have r: "node_at d (els ! orig_index rec) \<noteq> None" by simp
  have "restoreElement els (map_at dq (append_child c) d) rec
        = map_at (els ! orig_index rec) (on_attrs (restore_attrs rec)) (map_at dq (append_child c) d)"
    by (rule restoreElement_valid) (simp_all add: v elementTag_append_child [OF r])
  with e show ?thesis by (simp add: on_attrs_append_commute [OF r])
next
  assume inv: "\<not> (orig_index rec < length els
        \<and> elementTag d (els ! orig_index rec) = orig_tagName rec)"
    and e: "restoreElement els d rec = d"
  have "restoreElement els (map_at dq (append_child c) d) rec = map_at dq (append_child c) d"
  proof (rule restoreElement_invalid)
    show "\<not> (orig_index rec < length els
        \<and> elementTag (map_at dq (append_child c) d) (els ! orig_index rec) = orig_tagName rec)"
    proof (cases "orig_index rec < length els")
      case True
      with assms have "node_at d (els ! orig_index rec) \<noteq> None" by simp
      from elementTag_append_child [OF this] inv show ?thesis by simp
    next
      case False
      then show ?thesis by simp
    qed
  qed
  with e show ?thesis by simp
qed

lemma foldl_restore_append:
  "\<forall>q \<in> set els. node_at d q \<noteq> None \<Longrightarrow>
   foldl (restoreElement els) (map_at dq (append_child c) d) recs
     = map_at dq (append_child c) (foldl (restoreElement els) d recs)"
proof (induction recs arbitrary: d)
  case Nil
  then show ?case by simp
next
  case (Cons rec recs)
  from Cons.prems have "\<forall>q \<in> set els. node_at (restoreElement els d rec) q \<noteq> None" by simp
  from Cons.IH [OF this] Cons.prems show ?case by (simp add: restoreElement_append_commute)
qed

lemma drop_child_map_at: "drop_child l \<circ> map_at [l] f = drop_child l"
  by (rule ext) (simp add: drop_child_def)

lemma remove_map_at: "dq \<noteq> [] \<Longrightarrow> remove (map_at dq f d) dq = remove d dq"
proof -
  assume ne: "dq \<noteq> []"
  then have dq: "dq = butlast dq @ [last dq]" by simp
  have "map_at (butlast dq) (drop_child (last dq)) (map_at (butlast dq @ [last dq]) f d)
      = map_at (butlast dq) (drop_child (last dq)) d"
    by (simp only: map_at_append map_at_compose drop_child_map_at)
  with ne dq show ?thesis by (simp add: remove_def)
qed

lemma aligned_absorber:
  assumes "aligned st n" and "q \<in> set (matching snapshotted n)"
  shows "\<exists>rec \<in> set (st_elements st). orig_index rec < length (matching snapshotted n)
           \<and> matching snapshotted n ! orig_index rec = q \<and> elementTag n q = orig_tagName rec"
proof -
  let ?els = "matching snapshotted n"
  from assms(2) obtain i where i: "i < length ?els" "?els ! i = q"
    by (auto simp: in_set_conv_nth)
  from assms(1) have eq: "map (\<lambda>r. (orig_index r, orig_tagName r)) (st_elements st)
        = enumerate 0 (map (elementTag n) ?els)"
    by (simp add: aligned_def)
  then have "length (map (\<lambda>r. (orig_index r, orig_tagName r)) (st_elements st))
        = length (enumerate 0 (map (elementTag n) ?els))" by simp
  then have len: "length (st_elements st) = length ?els" by simp
  from eq have "map (\<lambda>r. (orig_index r, orig_tagName r)) (st_elements st) ! i
        = enumerate 0 (map (elementTag n) ?els) ! i" by simp
  with i len have "(orig_index (st_elements st ! i), orig_tagName (st_elements st ! i))
        = (i, elementTag n q)" by (simp add: nth_enumerate_eq)
  with i len show ?thesis by (intro bexI [of _ "st_elements st ! i"]) auto
qed

lemma resetTree_on_attrs:
  assumes "aligned st n" and "q \<in> set (matching snapshotted n)"
    and "k \<in> {''fill'', ''stroke'', ''style''}"
  shows "resetTree st (map_at q (on_attrs (\<lambda>a. a(k := x))) n) = resetTree st n"
proof -
  have "foldl (restoreElement (matching snapshotted n)) (map_at q (on_attrs (\<lambda>a. a(k := x))) n)
          (st_elements st)
        = foldl (restoreElement (matching snapshotted n)) n (st_elements st)"
    by (rule foldl_restore_absorb)
      (use aligned_absorber [OF assms(1,2)] restore_attrs_absorb [OF assms(3)] in auto)
  then show ?thesis by (simp add: resetTree_def)
qed

lemma resetTree_append_child:
  assumes "matching [''defs''] n = dq # rest"
    and "tagName c \<notin> set snapshotted" and "matching snapshotted c = []"
    and "tagName c \<noteq> ''defs''" and "matching [''defs''] c = []"
  shows "resetTree st (map_at dq (append_child c) n) = resetTree st n"
proof -
  let ?els = "matching snapshotted n"
  let ?X = "foldl (restoreElement ?els) n (st_elements st)"
  from assms(1) have "dq \<in> set (matching [''defs''] n)" by simp
  then have dq: "dq \<noteq> []" "node_at n dq \<noteq> None" by (auto simp: matching_mem)
  have els: "matching snapshotted (map_at dq (append_child c) n) = ?els"
    by (rule matching_append_child [OF dq(2) assms(2,3)])
  have res: "\<forall>q \<in> set ?els. node_at n q \<noteq> None" by (auto simp: matching_mem)
  have f: "foldl (restoreElement ?els) (map_at dq (append_child c) n) (st_elements st)
        = map_at dq (append_child c) ?X"
    by (rule foldl_restore_append [OF res])
  have X: "node_at ?X dq \<noteq> None" using dq(2) by simp
  have m: "matching [''defs''] (map_at dq (append_child c) ?X) = dq # rest"
    using matching_append_child [OF X, of c "[''defs'']"] assms(1,4,5) by simp
  have m': "matching [''defs''] ?X = dq # rest" using assms(1) by simp
  have d2: "(case matching [''defs''] (map_at dq (append_child c) ?X) of
               [] \<Rightarrow> map_at dq (append_child c) ?X
             | currentDefs # _ \<Rightarrow> remove (map_at dq (append_child c) ?X) currentDefs)
          = (case matching [''defs''] ?X of [] \<Rightarrow> ?X | currentDefs # _ \<Rightarrow> remove ?X currentDefs)"
    by (simp only: m m' list.case remove_map_at [OF dq(1)])
  show ?thesis
    unfolding resetTree_def Let_def els f d2 by (rule refl)
qed

subsection \<open>Resetting the tree the snapshot was taken of\<close>

lemma restoreElement_ident:
  assumes "\<And>x. orig_index rec < length els \<Longrightarrow> node_at m (els ! orig_index rec) = Some x
             \<Longrightarrow> restore_attrs rec (attributes x) = attributes x"
  shows "restoreElement els m rec = m"
proof (rule restoreElement_cases [of rec els m])
  assume v: "orig_index rec < length els"
    and e: "restoreElement els m rec = map_at (els ! orig_index rec) (on_attrs (restore_attrs rec)) m"
  have "map_at (els ! orig_index rec) (on_attrs (restore_attrs rec)) m = m"
  proof (rule map_at_ident)
    fix x
    assume "node_at m (els ! orig_index rec) = Some x"
    from assms [OF v this] show "on_attrs (restore_attrs rec) x = x"
      by (cases x) (simp add: on_attrs_def)
  qed
  with e show ?thesis by simp
qed

lemma foldl_ident: "(\<And>x. x \<in> set xs \<Longrightarrow> f a x = a) \<Longrightarrow> foldl f a xs = a"
  by (induction xs) auto

lemma snapshot_records:
  assumes "rec \<in> set (st_elements (snapshotOf n))"
  shows "orig_index rec < length (matching snapshotted n)
       \<and> orig_tagName rec = elementTag n (matching snapshotted n ! orig_index rec)
       \<and> orig_fill rec = getAttribute n (matching snapshotted n ! orig_index rec) ''fill''
       \<and> orig_stroke rec = getAttribute n (matching snapshotted n ! orig_index rec) ''stroke''
       \<and> orig_style rec = getAttribute n (matching snapshotted n ! orig_index rec) ''style''"
  using assms by (auto simp: snapshotOf_def in_set_enumerate_eq)

lemma restore_attrs_own:
  assumes "node_at n e = Some x"
    and "orig_fill rec = getAttribute n e ''fill''"
    and "orig_stroke rec = getAttribute n e ''stroke''"
    and "orig_style rec = getAttribute n e ''style''"
  shows "restore_attrs rec (attributes x) = attributes x"
  using assms by (auto simp: restore_attrs_def getAttribute_def)

lemma foldl_restore_own:
  "foldl (restoreElement (matching snapshotted n)) n (st_elements (snapshotOf n)) = n"
proof (rule foldl_ident)
  fix rec
  assume r: "rec \<in> set (st_elements (snapshotOf n))"
  show "restoreElement (matching snapshotted n) n rec = n"
  proof (rule restoreElement_ident)
    fix x
    assume "node_at n (matching snapshotted n ! orig_index rec) = Some x"
    then show "restore_attrs rec (attributes x) = attributes x"
      using snapshot_records [OF r] by (intro restore_attrs_own) auto
  qed
qed

lemma resetTree_snapshotOf: "resetTree (snapshotOf n) n = defs_first n"
proof (cases "matching [''defs''] n")
  case Nil
  then show ?thesis
    by (simp add: resetTree_def defs_first_def foldl_restore_own) (simp add: snapshotOf_def)
next
  case (Cons dq rest)
  then have "dq \<in> set (matching [''defs''] n)" by simp
  then obtain dn where dn: "node_at n dq = Some dn" by (auto simp: matching_mem)
  have "st_defs (snapshotOf n) = Some dn" by (simp add: snapshotOf_def Cons dn)
  with Cons dn show ?thesis
    by (simp add: resetTree_def defs_first_def foldl_restore_own)
qed

lemma defs_first_none: "matching [''defs''] n = [] \<Longrightarrow> defs_first n = n"
  by (simp add: defs_first_def)

lemma defs_first_front: "matching [''defs''] n = [0] # rest \<Longrightarrow> defs_first n = n"
proof -
  assume m: "matching [''defs''] n = [0] # rest"
  then have "[0] \<in> set (matching [''defs''] n)" by simp
  then have c: "childNodes n \<noteq> []" by (auto simp: matching_mem split: if_splits)
  then obtain c0 cs where cs: "childNodes n = c0 # cs" by (cases "childNodes n") auto
  have 1: "node_at n [0] = Some c0" using cs by simp
  have 2: "insert_first c0 (remove n [0]) = n"
    using cs by (cases n) (simp add: remove_def drop_child_def insert_first_def)
  show ?thesis by (simp only: defs_first_def m list.case 1 option.case 2)
qed

subsection \<open>Resetting after an empty defs element was inserted\<close>

lemma matching_emptyDefs [simp]: "matching sel emptyDefs = []"
  by (simp add: emptyDefs_def)

lemma matching_inserted_snapshotted:
  "matching snapshotted (insert_first emptyDefs n) = map shift (matching snapshotted n)"
  by (rule matching_insert_first) (simp_all add: emptyDefs_def snapshotted_def)

lemma matching_inserted_paintable:
  "matching paintable (insert_first emptyDefs n) = map shift (matching paintable n)"
  by (rule matching_insert_first) (simp_all add: emptyDefs_def paintable_def)

lemma matching_inserted_defs:
  "matching [''defs''] n = [] \<Longrightarrow> matching [''defs''] (insert_first emptyDefs n) = [[0]]"
  by (simp add: matching_unfold insert_first_def matching_from_Suc [of _ 0] emptyDefs_def)

lemma node_at_inserted: "e \<noteq> [] \<Longrightarrow> node_at (insert_first c n) (shift e) = node_at n e"
  by (cases e) (simp_all add: shift_def insert_first_def)

lemma elementTag_inserted: "e \<noteq> [] \<Longrightarrow> elementTag (insert_first c n) (shift e) = elementTag n e"
  by (simp add: elementTag_def node_at_inserted)

lemma foldl_restore_inserted:
  "foldl (restoreElement (map shift (matching snapshotted n))) (insert_first emptyDefs n)
     (st_elements (snapshotOf n)) = insert_first emptyDefs n"
proof (rule foldl_ident)
  fix rec
  assume r: "rec \<in> set (st_elements (snapshotOf n))"
  let ?els = "matching snapshotted n"
  from snapshot_records [OF r] have i: "orig_index rec < length ?els" by simp
  then have "?els ! orig_index rec \<in> set ?els" by simp
  then have ne: "?els ! orig_index rec \<noteq> []" by (simp add: matching_mem)
  show "restoreElement (map shift ?els) (insert_first emptyDefs n) rec = insert_first emptyDefs n"
  proof (rule restoreElement_ident)
    fix x
    assume "node_at (insert_first emptyDefs n) (map shift ?els ! orig_index rec) = Some x"
    with i ne have "node_at n (?els ! orig_index rec) = Some x" by (simp add: node_at_inserted)
    then show "restore_attrs rec (attributes x) = attributes x"
      using snapshot_records [OF r] by (intro restore_attrs_own) auto
  qed
qed

lemma remove_inserted: "remove (insert_first c n) [0] = n"
  by (cases n) (simp add: remove_def drop_child_def insert_first_def)

lemma resetTree_inserted:
  assumes "matching [''defs''] n = []"
  shows "resetTree (snapshotOf n) (insert_first emptyDefs n) = defs_first n"
proof -
  have "st_defs (snapshotOf n) = None" by (simp add: snapshotOf_def assms)
  then show ?thesis
    by (simp add: resetTree_def matching_inserted_snapshotted foldl_restore_inserted
        matching_inserted_defs [OF assms] remove_inserted defs_first_none [OF assms])
qed

lemma enumerate_map: "enumerate i (map f xs) = map (\<lambda>(j, x). (j, f x)) (enumerate i xs)"
  by (induction xs arbitrary: i) auto

lemma aligned_snapshotOf: "aligned (snapshotOf n) n"
  by (simp add: aligned_def snapshotOf_def enumerate_map o_def case_prod_beta)

lemma aligned_inserted: "aligned (snapshotOf n) (insert_first emptyDefs n)"
proof -
  have t: "map (elementTag (insert_first emptyDefs n)) (map shift (matching snapshotted n))
      = map (elementTag n) (matching snapshotted n)"
    by (auto simp: matching_mem elementTag_inserted)
  show ?thesis
    unfolding aligned_def matching_inserted_snapshotted t
    using aligned_snapshotOf [of n, unfolded aligned_def] .
qed

subsection \<open>The invariant of the coloring loop\<close>

lemma elementTag_on_attrs_fun: "elementTag (map_at r (on_attrs \<phi>) d) = elementTag d"
  by (rule ext) simp

lemma attributes_map_at: "q \<noteq> [] \<Longrightarrow> attributes (map_at q f n) = attributes n"
  by (cases q) auto

lemma good_refl: "aligned st n \<Longrightarrow> good st n n"
  by (simp add: good_def)

lemma good_setAttribute:
  assumes "good st n1 n" and "q \<in> set (matching snapshotted n)"
    and "k \<in> {''fill'', ''stroke''}"
  shows "good st n1 (setAttribute n q k v)"
proof -
  from assms(2) have ne: "q \<noteq> []" by (simp add: matching_mem)
  from assms(1) have al: "aligned st n" by (simp add: good_def)
  have k: "k \<in> {''fill'', ''stroke'', ''style''}" using assms(3) by auto
  have r: "resetTree st (map_at q (on_attrs (\<lambda>a. a(k \<mapsto> v))) n) = resetTree st n"
    by (rule resetTree_on_attrs [OF al assms(2) k])
  have a: "aligned st (map_at q (on_attrs (\<lambda>a. a(k \<mapsto> v))) n)"
    using al by (simp add: aligned_def elementTag_on_attrs_fun)
  from assms(1) r a ne show ?thesis
    by (simp add: good_def setAttribute_def set_attr_on tagName_map_at attributes_map_at)
qed

lemma good_appendChild:
  assumes "good st n1 n" and "matching [''defs''] n1 = dq # rest"
    and "tagName c \<notin> set snapshotted" and "matching snapshotted c = []"
    and "tagName c \<noteq> ''defs''" and "matching [''defs''] c = []"
  shows "good st n1 (appendChild n dq c)"
proof -
  from assms(1,2) have m: "matching [''defs''] n = dq # rest" by (simp add: good_def)
  then have "dq \<in> set (matching [''defs''] n)" by simp
  then have dq: "dq \<noteq> []" "node_at n dq \<noteq> None" by (auto simp: matching_mem)
  from assms(1) have al: "aligned st n" by (simp add: good_def)
  have els: "matching snapshotted (map_at dq (append_child c) n) = matching snapshotted n"
    by (rule matching_append_child [OF dq(2) assms(3,4)])
  have ds: "matching [''defs''] (map_at dq (append_child c) n) = matching [''defs''] n"
    using matching_append_child [OF dq(2), of c "[''defs'']"] assms(5,6) by simp
  have t: "map (elementTag (map_at dq (append_child c) n)) (matching snapshotted n)
      = map (elementTag n) (matching snapshotted n)"
    by (auto simp: matching_mem elementTag_append_child)
  have a: "aligned st (map_at dq (append_child c) n)"
    unfolding aligned_def els t using al [unfolded aligned_def] .
  have r: "resetTree st (map_at dq (append_child c) n) = resetTree st n"
    by (rule resetTree_append_child [OF m assms(3,4,5,6)])
  from assms(1) els ds a r dq(1) show ?thesis
    by (simp add: good_def appendChild_def tagName_map_at attributes_map_at)
qed

subsection \<open>The invariant under the writes of the loop\<close>

lemma node_at_setAttribute_inside:
  "node_at d p = Some n \<Longrightarrow> node_at (setAttribute d (p @ q) k v) p = Some (setAttribute n q k v)"
  by (simp add: setAttribute_def node_at_map_at_prefix)

lemma node_at_appendChild_inside:
  "node_at d p = Some n \<Longrightarrow> node_at (appendChild d (p @ q) c) p = Some (appendChild n q c)"
  by (simp add: appendChild_def node_at_map_at_prefix)

lemma node_at_on_attrs_above:
  "\<not> prefix q r \<Longrightarrow> node_at (map_at r (on_attrs \<phi>) d) q = node_at d q"
proof (induction r arbitrary: d q)
  case Nil
  then show ?case by (cases q) auto
next
  case (Cons i r)
  show ?case
  proof (cases q)
    case Nil
    with Cons.prems show ?thesis by simp
  next
    case q: (Cons j q')
    show ?thesis
    proof (cases "j = i")
      case True
      with q Cons.prems have "\<not> prefix q' r" by simp
      from Cons.IH [OF this] q True show ?thesis by auto
    next
      case False
      with q show ?thesis by (auto simp: nth_list_update)
    qed
  qed
qed

lemma node_at_setAttribute_above:
  assumes "prefix r p" and "r \<noteq> p"
  shows "node_at (setAttribute d r k v) p = node_at d p"
proof -
  from assms have "\<not> prefix p r" by (auto dest: prefix_order.antisym)
  then show ?thesis by (simp add: setAttribute_def set_attr_on node_at_on_attrs_above)
qed

lemma applyColorToElement_cases:
  obtains (own) "applyColorToElement d e k color = setAttribute d e k (jsString color)"
  | (group) g where "closest_g d e k = Some g"
      "applyColorToElement d e k color = setAttribute d g k (jsString color)"
proof -
  have "applyColorToElement d e k color = setAttribute d e k (jsString color)
      \<or> (\<exists>g. closest_g d e k = Some g
            \<and> applyColorToElement d e k color = setAttribute d g k (jsString color))"
    by (simp add: applyColorToElement_def Let_def split: option.splits)
  with that show ?thesis by blast
qed

lemma toLowerCase_g: "toLowerCase ''g'' \<noteq> ''svg''"
  by (simp add: toLowerCase_def)

lemma paintable_snapshotted: "t \<in> set paintable \<Longrightarrow> t \<in> set snapshotted"
  by (auto simp: paintable_def snapshotted_def)

lemma holds_applyColor:
  assumes "holds p st n1 d" and "q0 \<in> set (matching paintable n1)"
    and "k \<in> {''fill'', ''stroke''}" and "toLowerCase (tagName n1) = ''svg''"
  shows "holds p st n1 (applyColorToElement d (p @ q0) k color)"
proof -
  from assms(1) obtain n where n: "node_at d p = Some n" "good st n1 n"
    by (auto simp: holds_def)
  from n(2) have els: "matching snapshotted n = matching snapshotted n1"
    and tag: "tagName n = tagName n1" by (simp_all add: good_def)
  from assms(2) have "q0 \<in> set (matching snapshotted n1)"
    by (auto simp: matching_mem dest: paintable_snapshotted)
  with els have q0: "q0 \<in> set (matching snapshotted n)" by simp
  show ?thesis
  proof (rule applyColorToElement_cases [of d "p @ q0" k color])
    assume e: "applyColorToElement d (p @ q0) k color = setAttribute d (p @ q0) k (jsString color)"
    from node_at_setAttribute_inside [OF n(1)] good_setAttribute [OF n(2) q0 assms(3)] e
    show ?thesis by (auto simp: holds_def)
  next
    fix g
    assume c: "closest_g d (p @ q0) k = Some g"
      and e: "applyColorToElement d (p @ q0) k color = setAttribute d g k (jsString color)"
    from closest_g_Some [OF c] have pg: "prefix g (p @ q0)" and mg: "matches_g d k g" by auto
    from pg consider (above) "prefix g p" "g \<noteq> p" | (at) "g = p"
      | (inside) us where "g = p @ us" "us \<noteq> []"
      by (auto simp: prefix_append)
    then show ?thesis
    proof cases
      case above
      from node_at_setAttribute_above [OF above] n e show ?thesis by (auto simp: holds_def)
    next
      case at
      with mg n(1) have "tagName n = ''g''" by (simp add: matches_g_def)
      with tag assms(4) toLowerCase_g show ?thesis by simp
    next
      case inside
      with mg n(1) have "\<exists>m. node_at n us = Some m \<and> tagName m = ''g''"
        by (auto simp: matches_g_def node_at_append split: option.splits)
      with inside(2) have "us \<in> set (matching snapshotted n)"
        by (auto simp: matching_mem snapshotted_def)
      from node_at_setAttribute_inside [OF n(1)] good_setAttribute [OF n(2) this assms(3)] e inside(1)
      show ?thesis by (auto simp: holds_def)
    qed
  qed
qed

lemma holds_appendChild:
  assumes "holds p st n1 d" and "matching [''defs''] n1 = dq # rest"
    and "tagName c \<notin> set snapshotted" and "matching snapshotted c = []"
    and "tagName c \<noteq> ''defs''" and "matching [''defs''] c = []"
  shows "holds p st n1 (appendChild d (p @ dq) c)"
proof -
  from assms(1) obtain n where n: "node_at d p = Some n" "good st n1 n"
    by (auto simp: holds_def)
  from node_at_appendChild_inside [OF n(1)] good_appendChild [OF n(2) assms(2-6)]
  show ?thesis by (auto simp: holds_def)
qed

subsection \<open>The invariant along the loop\<close>

lemma emit_fields [simp]:
  "document (emit ev s) = document s" "svgStates (emit ev s) = svgStates s"
  by (simp_all add: emit_def)

lemma generateRandomColor_fields [simp]:
  "document (snd (generateRandomColor h c s)) = document s"
  "svgStates (snd (generateRandomColor h c s)) = svgStates s"
  by (simp_all add: generateRandomColor_def Math_random_def Let_def)

lemma Math_random_fields [simp]:
  "document (snd (Math_random h s)) = document s"
  "svgStates (snd (Math_random h s)) = svgStates s"
  by (simp_all add: Math_random_def)

lemma Date_now_fields [simp]:
  "document (snd (Date_now h s)) = document s"
  "svgStates (snd (Date_now h s)) = svgStates s"
  by (simp_all add: Date_now_def)

lemma generateRandomGradient_fields [simp]:
  "document (snd (generateRandomGradient h c ident s)) = document s"
  "svgStates (snd (generateRandomGradient h c ident s)) = svgStates s"
  by (simp_all add: generateRandomGradient_def Let_def split_beta)

lemma gradient_node:
  "tagName (fst (fst (generateRandomGradient h c ident s))) = ''linearGradient''"
  "''stop'' \<notin> set sel \<Longrightarrow> matching sel (fst (fst (generateRandomGradient h c ident s))) = []"
  by (simp_all add: generateRandomGradient_def Let_def split_beta)

lemma applyElement_holds:
  assumes "holds p st n1 (document s)" and "q0 \<in> set (matching paintable n1)"
    and "matching [''defs''] n1 = dq # rest" and "toLowerCase (tagName n1) = ''svg''"
  shows "holds p st n1 (document (fst (applyElement h c svgId (p @ dq) (s, k) (i, p @ q0))))
       \<and> svgStates (fst (applyElement h c svgId (p @ dq) (s, k) (i, p @ q0))) = svgStates s"
proof -
  have col: "\<And>d' a color. holds p st n1 d' \<Longrightarrow> a \<in> {''fill'', ''stroke''} \<Longrightarrow>
      holds p st n1 (applyColorToElement d' (p @ q0) a color)"
    by (rule holds_applyColor [OF _ assms(2) _ assms(4)])
  have app: "\<And>d' s' ident. holds p st n1 d' \<Longrightarrow>
      holds p st n1 (appendChild d' (p @ dq) (fst (fst (generateRandomGradient h c ident s'))))"
    by (rule holds_appendChild [OF _ assms(3)])
      (simp_all add: gradient_node snapshotted_def)
  show ?thesis
    using assms(1)
    unfolding applyElement_def Let_def split_beta
    by (auto intro!: col app)
qed

lemma loop_holds:
  assumes "matching [''defs''] n1 = dq # rest" and "toLowerCase (tagName n1) = ''svg''"
  shows "holds p st n1 (document s) \<Longrightarrow> snd ` set xs \<subseteq> (@) p ` set (matching paintable n1) \<Longrightarrow>
     holds p st n1 (document (fst (foldl (applyElement h c svgId (p @ dq)) (s, k) xs)))
     \<and> svgStates (fst (foldl (applyElement h c svgId (p @ dq)) (s, k) xs)) = svgStates s"
proof (induction xs arbitrary: s k)
  case Nil
  then show ?case by simp
next
  case (Cons x xs)
  obtain i e where x: "x = (i, e)" by (cases x)
  with Cons.prems(2) obtain q0 where q0: "q0 \<in> set (matching paintable n1)" "e = p @ q0" by auto
  obtain s1 k1 where a: "applyElement h c svgId (p @ dq) (s, k) (i, p @ q0) = (s1, k1)"
    by (cases "applyElement h c svgId (p @ dq) (s, k) (i, p @ q0)")
  from applyElement_holds [OF Cons.prems(1) q0(1) assms, of h c svgId k i] a
  have s1: "holds p st n1 (document s1)" "svgStates s1 = svgStates s" by simp_all
  from Cons.prems(2) have "snd ` set xs \<subseteq> (@) p ` set (matching paintable n1)" by auto
  from Cons.IH [OF s1(1) this, of k1] s1(2) show ?case by (simp add: x q0(2) a)
qed

subsection \<open>The operations seen from the target\<close>

lemma querySelectorAll_at:
  "node_at d p = Some n \<Longrightarrow> querySelectorAll d p sel = map ((@) p) (matching sel n)"
  by (simp add: querySelectorAll_def)

lemma querySelector_at:
  "node_at d p = Some n \<Longrightarrow>
   querySelector d p sel = (case matching sel n of [] \<Rightarrow> None | q # _ \<Rightarrow> Some (p @ q))"
  by (simp add: querySelector_def querySelectorAll_at split: list.splits)

lemma elementTag_at: "node_at d p = Some n \<Longrightarrow> elementTag d (p @ q) = elementTag n q"
  by (simp add: elementTag_def node_at_append)

lemma getAttribute_at: "node_at d p = Some n \<Longrightarrow> getAttribute d (p @ q) k = getAttribute n q k"
  by (simp add: getAttribute_def node_at_append)

lemma map_at_cong_at: "node_at d p = Some n \<Longrightarrow> f n = g n \<Longrightarrow> map_at p f d = map_at p g d"
  by (induction p arbitrary: d) (auto split: if_splits)

lemma map_at_const_same: "node_at d p = Some n \<Longrightarrow> map_at p (\<lambda>_. n) d = d"
  by (rule map_at_ident) simp

lemma map_at_const_twice: "map_at p (\<lambda>_. x) (map_at p (\<lambda>_. y) d) = map_at p (\<lambda>_. x) d"
  by (simp add: map_at_compose o_def)

lemma node_at_map_at_const: "node_at d p = Some n \<Longrightarrow> node_at (map_at p (\<lambda>_. x) d) p = Some x"
  by (simp add: node_at_map_at_same)

lemma saveOriginalState_at:
  assumes "node_at (document s) p = Some n" and "svgStates s k = None"
  shows "saveOriginalState p k s = s\<lparr>svgStates := (svgStates s)(k \<mapsto> snapshotOf n)\<rparr>"
  using assms
  by (simp add: saveOriginalState_def snapshotOf_def Let_def querySelectorAll_at querySelector_at
      enumerate_map o_def case_prod_unfold elementTag_at getAttribute_at node_at_append
      split: list.splits)

lemma restoreElement_at:
  assumes "node_at d p = Some n"
  shows "restoreElement (map ((@) p) els) d rec = map_at p (\<lambda>_. restoreElement els n rec) d"
proof (cases "orig_index rec < length els \<and> elementTag n (els ! orig_index rec) = orig_tagName rec")
  case True
  then have v: "orig_index rec < length (map ((@) p) els)"
    "elementTag d (map ((@) p) els ! orig_index rec) = orig_tagName rec"
    by (simp_all add: elementTag_at [OF assms])
  have "restoreElement (map ((@) p) els) d rec
      = map_at p (map_at (els ! orig_index rec) (on_attrs (restore_attrs rec))) d"
    using restoreElement_valid [OF v] True by (simp add: map_at_append)
  also have "\<dots> = map_at p (\<lambda>_. map_at (els ! orig_index rec) (on_attrs (restore_attrs rec)) n) d"
    by (rule map_at_cong_at [OF assms]) simp
  also have "\<dots> = map_at p (\<lambda>_. restoreElement els n rec) d"
    using True by (simp add: restoreElement_valid)
  finally show ?thesis .
next
  case False
  then have "\<not> (orig_index rec < length (map ((@) p) els)
      \<and> elementTag d (map ((@) p) els ! orig_index rec) = orig_tagName rec)"
    by (auto simp: elementTag_at [OF assms])
  from restoreElement_invalid [OF this] restoreElement_invalid [OF False]
  show ?thesis by (simp add: map_at_const_same [OF assms])
qed

lemma foldl_restore_at:
  "node_at d p = Some n \<Longrightarrow>
   foldl (restoreElement (map ((@) p) els)) d recs
     = map_at p (\<lambda>_. foldl (restoreElement els) n recs) d"
proof (induction recs arbitrary: d n)
  case Nil
  then show ?case by (simp add: map_at_const_same)
next
  case (Cons rec recs)
  let ?n = "restoreElement els n rec"
  have d: "restoreElement (map ((@) p) els) d rec = map_at p (\<lambda>_. ?n) d"
    by (rule restoreElement_at [OF Cons.prems])
  have "node_at (map_at p (\<lambda>_. ?n) d) p = Some ?n"
    by (rule node_at_map_at_const [OF Cons.prems])
  from Cons.IH [OF this] d show ?case by (simp add: map_at_const_twice)
qed

lemma remove_at:
  assumes "node_at d p = Some n" and "q \<noteq> []"
  shows "remove d (p @ q) = map_at p (\<lambda>_. remove n q) d"
proof -
  from assms(2) have "remove d (p @ q) = map_at p (map_at (butlast q) (drop_child (last q))) d"
    by (simp add: remove_def butlast_append map_at_append)
  also have "\<dots> = map_at p (\<lambda>_. remove n q) d"
    by (rule map_at_cong_at [OF assms(1)]) (simp add: remove_def assms(2))
  finally show ?thesis .
qed

lemma resetColors_at:
  assumes "node_at (document s) p = Some n" and "elementId (document s) p = k" and "k \<noteq> []"
    and "svgStates s k = Some st"
  shows "resetColors p s
     = (True, emit (ResetEvent p k) (s\<lparr>document := map_at p (\<lambda>_. resetTree st n) (document s)\<rparr>))"
proof -
  let ?d = "document s"
  let ?X = "foldl (restoreElement (matching snapshotted n)) n (st_elements st)"
  let ?d1 = "map_at p (\<lambda>_. ?X) ?d"
  let ?X2 = "case matching [''defs''] ?X of [] \<Rightarrow> ?X | currentDefs # _ \<Rightarrow> remove ?X currentDefs"
  have d1: "foldl (restoreElement (querySelectorAll ?d p snapshotted)) ?d (st_elements st) = ?d1"
    by (simp add: querySelectorAll_at [OF assms(1)] foldl_restore_at [OF assms(1)])
  have n1: "node_at ?d1 p = Some ?X" by (rule node_at_map_at_const [OF assms(1)])
  have d2: "(case querySelector ?d1 p [''defs''] of
               Some currentDefs \<Rightarrow> remove ?d1 currentDefs | None \<Rightarrow> ?d1)
        = map_at p (\<lambda>_. ?X2) ?d"
  proof (cases "matching [''defs''] ?X")
    case Nil
    then show ?thesis by (simp add: querySelector_at [OF n1])
  next
    case (Cons dq rest)
    then have "dq \<in> set (matching [''defs''] ?X)" by simp
    then have "dq \<noteq> []" by (simp add: matching_mem)
    from remove_at [OF n1 this] Cons show ?thesis
      by (simp add: querySelector_at [OF n1] map_at_const_twice)
  qed
  have n2: "node_at (map_at p (\<lambda>_. ?X2) ?d) p = Some ?X2"
    by (rule node_at_map_at_const [OF assms(1)])
  have d3: "(case st_defs st of Some dn \<Rightarrow> map_at p (insert_first dn) (map_at p (\<lambda>_. ?X2) ?d)
              | None \<Rightarrow> map_at p (\<lambda>_. ?X2) ?d)
        = map_at p (\<lambda>_. resetTree st n) ?d"
    by (cases "st_defs st") (simp_all add: resetTree_def Let_def map_at_compose o_def)
  let ?D1 = "foldl (restoreElement (querySelectorAll ?d p snapshotted)) ?d (st_elements st)"
  let ?D2 = "case querySelector ?D1 p [''defs''] of
               Some currentDefs \<Rightarrow> remove ?D1 currentDefs | None \<Rightarrow> ?D1"
  let ?D3 = "case st_defs st of Some dn \<Rightarrow> map_at p (insert_first dn) ?D2 | None \<Rightarrow> ?D2"
  have "resetColors p s = (True, emit (ResetEvent p k) (s\<lparr>document := ?D3\<rparr>))"
    using assms by (simp add: resetColors_def Let_def)
  then show ?thesis unfolding d1 d2 d3 .
qed

subsection \<open>Apply, then reset\<close>

lemma after_insert_at: "q \<noteq> [] \<Longrightarrow> after_insert p (p @ q) = p @ shift q"
  by (cases q) (simp_all add: after_insert_def shift_def nth_append)

lemma holds_result:
  assumes "holds p st n1 d" and "attributes n1 = a" and "resetTree st n1 = r"
  shows "\<exists>n. node_at d p = Some n \<and> attributes n = a \<and> resetTree st n = r"
  using assms by (auto simp: holds_def good_def)

lemma applyRandomColors_result:
  assumes "node_at (document s) p = Some svg" and "toLowerCase (tagName svg) = ''svg''"
    and "elementId (document s) p = k" and "k \<noteq> []" and "svgStates s k = None"
  shows "\<exists>n. node_at (document (snd (applyRandomColors h c p s))) p = Some n
            \<and> attributes n = attributes svg
            \<and> resetTree (snapshotOf svg) n = defs_first svg
            \<and> svgStates (snd (applyRandomColors h c p s)) k = Some (snapshotOf svg)"
proof -
  let ?st = "snapshotOf svg"
  let ?s2 = "s\<lparr>svgStates := (svgStates s)(k \<mapsto> ?st)\<rparr>"
  let ?els = "matching paintable svg"
  have s2: "saveOriginalState p k s = ?s2"
    by (rule saveOriginalState_at [OF assms(1,5)])
  have n2: "node_at (document ?s2) p = Some svg" using assms(1) by simp
  show ?thesis
  proof (cases "?els = []")
    case True
    have "applyRandomColors h c p s = (False, ?s2)"
      using assms True
      by (simp add: applyRandomColors_def Let_def s2 querySelectorAll_at [OF n2]
          querySelectorAll_at [OF assms(1)])
    with assms(1) show ?thesis by (simp add: resetTree_snapshotOf)
  next
    case ne: False
    show ?thesis
    proof (cases "matching [''defs''] svg")
      case (Cons dq rest)
      let ?xs = "enumerate 0 (map ((@) p) ?els)"
      let ?L = "foldl (applyElement h c k (p @ dq)) (?s2, 0) ?xs"
      have ar: "applyRandomColors h c p s
          = (True, emit (Complete (snd ?L) (length (map ((@) p) ?els)) p) (fst ?L))"
        using assms ne Cons
        by (simp add: applyRandomColors_def Let_def s2 querySelectorAll_at [OF n2]
            querySelector_at [OF n2] querySelectorAll_at [OF assms(1)]
            querySelector_at [OF assms(1)] split_beta)
      have h0: "holds p ?st svg (document ?s2)"
        using n2 by (auto simp: holds_def intro: good_refl aligned_snapshotOf)
      have sub: "snd ` set ?xs \<subseteq> (@) p ` set (matching paintable svg)"
        by (auto simp: in_set_enumerate_eq)
      from loop_holds [OF Cons assms(2) h0 sub, of h c k 0]
      have l: "holds p ?st svg (document (fst ?L))" "svgStates (fst ?L) = svgStates ?s2"
        by simp_all
      from holds_result [OF l(1) refl resetTree_snapshotOf] l(2)
      show ?thesis by (simp add: ar)
    next
      case Nil
      let ?n1 = "insert_first emptyDefs svg"
      let ?s3 = "?s2\<lparr>document := map_at p (insert_first emptyDefs) (document s)\<rparr>"
      let ?els1 = "map (after_insert p) (map ((@) p) ?els)"
      let ?xs = "enumerate 0 ?els1"
      let ?L = "foldl (applyElement h c k (p @ [0])) (?s3, 0) ?xs"
      have ar: "applyRandomColors h c p s
          = (True, emit (Complete (snd ?L) (length ?els1) p) (fst ?L))"
        using assms ne Nil
        by (simp add: applyRandomColors_def Let_def s2 querySelectorAll_at [OF n2]
            querySelector_at [OF n2] querySelectorAll_at [OF assms(1)]
            querySelector_at [OF assms(1)] split_beta createDefsElement_def emptyDefs_def)
      have n3: "node_at (document ?s3) p = Some ?n1"
        using assms(1) by (simp add: node_at_map_at_same)
      have h0: "holds p ?st ?n1 (document ?s3)"
        using n3 by (auto simp: holds_def intro: good_refl aligned_inserted)
      have els1: "?els1 = map ((@) p) (matching paintable ?n1)"
        by (auto simp: matching_inserted_paintable matching_mem after_insert_at)
      have sub: "snd ` set ?xs \<subseteq> (@) p ` set (matching paintable ?n1)"
        unfolding els1 by (auto simp: in_set_enumerate_eq)
      have t: "toLowerCase (tagName ?n1) = ''svg''"
        using assms(2) by (simp add: insert_first_def)
      from loop_holds [OF matching_inserted_defs [OF Nil] t h0 sub, of h c k 0]
      have l: "holds p ?st ?n1 (document (fst ?L))" "svgStates (fst ?L) = svgStates ?s3"
        by simp_all
      have a: "attributes ?n1 = attributes svg" by (simp add: insert_first_def)
      from holds_result [OF l(1) a resetTree_inserted [OF Nil]] l(2)
      show ?thesis by (simp add: ar)
    qed
  qed
qed

lemma defs_first_defs: "st_defs (snapshotOf (defs_first n)) = st_defs (snapshotOf n)"
proof (cases "matching [''defs''] n")
  case Nil
  then show ?thesis by (simp add: defs_first_none)
next
  case (Cons dq rest)
  then have "dq \<in> set (matching [''defs''] n)" by simp
  then obtain dn where dn: "node_at n dq = Some dn" "tagName dn = ''defs''"
    by (auto simp: matching_mem)
  have "defs_first n = insert_first dn (remove n dq)"
    by (simp add: defs_first_def Cons dn)
  moreover have "st_defs (snapshotOf (insert_first dn (remove n dq))) = Some dn"
    using dn(2) by (simp add: snapshotOf_def matching_unfold insert_first_def)
  moreover have "st_defs (snapshotOf n) = Some dn"
    by (simp add: snapshotOf_def Cons dn)
  ultimately show ?thesis by simp
qed

text \<open>
  C1 (amended). Let the target be an \<^verbatim>\<open>svg\<close> element with a non-empty \<^verbatim>\<open>id\<close>
  under which no snapshot is stored yet. Then, whatever the configuration, the
  callbacks and the random source, \<^verbatim>\<open>applyRandomColors\<close> followed by
  \<^verbatim>\<open>resetColors\<close> on that target makes the reset return true and leaves the
  target's subtree as it was before the apply, except that its first
  \<^verbatim>\<open>defs\<close> element, if it has one, now is the first child of the target.
  So every element has all its attributes back (\<^verbatim>\<open>fill\<close>, \<^verbatim>\<open>stroke\<close> and
  \<^verbatim>\<open>style\<close> of every snapshotted element, an attribute that was absent being
  absent again), the \<^verbatim>\<open>defs\<close> container has its content of before the apply,
  and when the target had no \<^verbatim>\<open>defs\<close>, or its first \<^verbatim>\<open>defs\<close> was its first
  child already, the subtree is exactly the one of before the apply.
\<close>

theorem apply_then_reset:
  assumes "node_at (document s) svgElement = Some svg"
    and "toLowerCase (tagName svg) = ''svg''"
    and "elementId (document s) svgElement \<noteq> []"
    and "svgStates s (elementId (document s) svgElement) = None"
  shows "fst (resetColors svgElement (snd (applyRandomColors h c svgElement s)))
       \<and> node_at (document (snd (resetColors svgElement (snd (applyRandomColors h c svgElement s)))))
            svgElement = Some (defs_first svg)
       \<and> st_defs (snapshotOf (defs_first svg)) = st_defs (snapshotOf svg)
       \<and> (matching [''defs''] svg = [] \<or> (\<exists>rest. matching [''defs''] svg = [0] # rest)
            \<longrightarrow> defs_first svg = svg)"
proof -
  let ?k = "elementId (document s) svgElement"
  let ?s1 = "snd (applyRandomColors h c svgElement s)"
  from applyRandomColors_result [OF assms(1,2) refl assms(3,4), of h c]
  obtain n where n: "node_at (document ?s1) svgElement = Some n"
    "attributes n = attributes svg" "resetTree (snapshotOf svg) n = defs_first svg"
    "svgStates ?s1 ?k = Some (snapshotOf svg)"
    by blast
  have k: "elementId (document ?s1) svgElement = ?k"
    using n(1,2) assms(1) by (simp add: elementId_def getAttribute_def)
  from resetColors_at [OF n(1) k assms(3) n(4)] n(1,3)
  have "fst (resetColors svgElement ?s1)"
    "node_at (document (snd (resetColors svgElement ?s1))) svgElement = Some (defs_first svg)"
    by (simp_all add: node_at_map_at_same)
  moreover have "matching [''defs''] svg = [] \<or> (\<exists>rest. matching [''defs''] svg = [0] # rest)
            \<longrightarrow> defs_first svg = svg"
    by (auto simp: defs_first_none defs_first_front)
  ultimately show ?thesis by (simp add: defs_first_defs)
qed

theorem apply_then_reset_witness:
  "node_at (document (st0 docGroup)) [] = Some docGroup
   \<and> toLowerCase (tagName docGroup) = ''svg''
   \<and> elementId (document (st0 docGroup)) [] = ''a''
   \<and> svgStates (st0 docGroup) ''a'' = None
   \<and> getAttribute docGroup [0] ''fill'' = Some ''#333''
   \<and> getAttribute (document (snd (applyRandomColors host0 col0 [] (st0 docGroup)))) [1] ''fill''
        = Some ''#ff6b6b''
   \<and> fst (resetColors [] (snd (applyRandomColors host0 col0 [] (st0 docGroup))))
   \<and> document (snd (resetColors [] (snd (applyRandomColors host0 col0 [] (st0 docGroup)))))
        = docGroup
   \<and> getAttribute (document (snd (applyRandomColors hostGradient col0 [] (st0 docDefsLast))))
        [0] ''fill'' = Some ''url(#gradient-a-fill-0-0)''
   \<and> elementTag (document (snd (applyRandomColors hostGradient col0 [] (st0 docDefsLast))))
        [1, 1] = ''linearGradient''
   \<and> document (snd (resetColors [] (snd (applyRandomColors hostGradient col0 [] (st0 docDefsLast)))))
        = docDefsFront"
proof -
  have h: "node_at (document (st0 docGroup)) [] = Some docGroup"
    "toLowerCase (tagName docGroup) = ''svg''"
    "elementId (document (st0 docGroup)) [] = ''a''"
    "svgStates (st0 docGroup) ''a'' = None"
    "getAttribute docGroup [0] ''fill'' = Some ''#333''"
    by (simp_all add: dom_defs input_defs)
  have h3: "elementId (document (st0 docGroup)) [] \<noteq> []" by (simp add: h(3))
  have h4: "svgStates (st0 docGroup) (elementId (document (st0 docGroup)) []) = None"
    by (simp add: h(3,4))
  have m: "matching [''defs''] docGroup = []" by (simp add: docGroup_def)
  have c: "getAttribute (document (snd (applyRandomColors host0 col0 [] (st0 docGroup)))) [1] ''fill''
        = Some ''#ff6b6b''"
    by (simp add: op_defs dom_defs input_defs)
  from apply_then_reset [OF h(1,2) h3 h4, of host0 col0] m
  have r: "fst (resetColors [] (snd (applyRandomColors host0 col0 [] (st0 docGroup))))"
    "document (snd (resetColors [] (snd (applyRandomColors host0 col0 [] (st0 docGroup)))))
        = docGroup"
    by simp_all
  have g: "node_at (document (st0 docDefsLast)) [] = Some docDefsLast"
    "toLowerCase (tagName docDefsLast) = ''svg''"
    "elementId (document (st0 docDefsLast)) [] \<noteq> []"
    "svgStates (st0 docDefsLast) (elementId (document (st0 docDefsLast)) []) = None"
    by (simp_all add: dom_defs input_defs)
  have f: "defs_first docDefsLast = docDefsFront"
    by (simp add: defs_first_def dom_defs input_defs)
  have d: "getAttribute (document (snd (applyRandomColors hostGradient col0 [] (st0 docDefsLast))))
        [0] ''fill'' = Some ''url(#gradient-a-fill-0-0)''"
    "elementTag (document (snd (applyRandomColors hostGradient col0 [] (st0 docDefsLast))))
        [1, 1] = ''linearGradient''"
    by (simp_all add: op_defs dom_defs input_defs decimal.simps digit_def)
  from apply_then_reset [OF g, of hostGradient col0] f
  have r2: "document (snd (resetColors [] (snd (applyRandomColors hostGradient col0 []
        (st0 docDefsLast))))) = docDefsFront"
    by simp
  from h c r d r2 show ?thesis by blast
qed

text \<open>
  C1 as stated fails for a target whose snapshot is stored already. After a
  first \<^verbatim>\<open>applyRandomColors\<close> the path of \<^verbatim>\<open><svg id="a"><path fill="#111"/></svg>\<close>
  has fill \<^verbatim>\<open>#ff6b6b\<close> and follows an empty \<^verbatim>\<open>defs\<close>. A second
  \<^verbatim>\<open>applyRandomColors\<close> keeps the stored snapshot, and the \<^verbatim>\<open>resetColors\<close>
  after it gives the path the fill \<^verbatim>\<open>#111\<close> and removes the \<^verbatim>\<open>defs\<close>:
  the values of before the first apply, not those of before the second.
\<close>

theorem apply_then_reset_counterexample:
  "node_at (document stColored) [] \<noteq> None
   \<and> toLowerCase (elementTag (document stColored) []) = ''svg''
   \<and> querySelectorAll (document stColored) [] paintable = [[1]]
   \<and> getAttribute (document stColored) [1] ''fill'' = Some ''#ff6b6b''
   \<and> fst (applyRandomColors host0 col0 [] stColored)
   \<and> fst (resetColors [] (snd (applyRandomColors host0 col0 [] stColored)))
   \<and> querySelectorAll (document (snd (resetColors [] (snd (applyRandomColors host0 col0 [] stColored)))))
        [] paintable = [[0]]
   \<and> getAttribute (document (snd (resetColors [] (snd (applyRandomColors host0 col0 [] stColored)))))
        [0] ''fill'' = Some ''#111''"
  by (simp add: op_defs dom_defs input_defs)

end
